theory Spec2Isabelle
  imports Main "HOL-Library.AList"
begin

section \<open>The expirable cache: data model\<close>

text \<open>
  The embedding follows the loading cache of the repository (type \<open>loadingCacheImpl\<close>)
  and, for the legacy surface, the adapter \<open>cacheImpl\<close> that wraps the newer core.

  Instants and durations are integers (nanoseconds); \<open>time.Now().After(t)\<close> is
  \<open>t < now\<close> and \<open>now.Add(d)\<close> is \<open>now + d\<close>. Every operation runs under the
  cache's lock and is given the readings of the clock as arguments: \<open>Set\<close> takes
  two, one for the write and one for its trim; \<open>DeleteExpired\<close>, which reads the
  clock for every key it visits, is modelled at the one instant \<open>now\<close>.

  The counters are Go \<open>int\<close>s, modelled as unbounded integers: each increment costs
  one cache operation, so a 64-bit counter does not wrap in any feasible run.
\<close>

text \<open>
  An element of \<open>container/list\<close> is identified by its address. The cache's map and
  its list hold pointers to the same elements, so the contents of the elements live
  in a store of their own, \<open>elems\<close>.
\<close>

type_synonym elem = nat

record 'v cacheItem =
  expiresAt :: int
  key :: string
  val :: "'v"

record Stats =
  Hits :: int
  Misses :: int
  Added :: int
  Evicted :: int

text \<open>
  \<open>onEvicted\<close> tells whether a callback is installed; the callback itself is code of
  the user that cannot call back into the locked cache, so all the model keeps of it
  is the sequence of its calls, \<open>evictedCalls\<close> (latest first). \<open>items\<close> is the Go map
  as an association list with distinct keys; where the code ranges over the map, the
  model takes the order of the association list, one of the orders Go may choose.
  \<open>evictList\<close> lists the elements from the front (newest) to the back (oldest).
\<close>

record 'v loadingCacheImpl =
  ttl :: int
  maxKeys :: int
  isLRU :: bool
  onEvicted :: bool
  stat :: Stats
  items :: "(string \<times> elem) list"
  evictList :: "elem list"
  elems :: "elem \<rightharpoonup> 'v cacheItem"
  nextElem :: elem
  evictedCalls :: "(string \<times> 'v) list"

definition noEvictionTTL :: int where
  "noEvictionTTL = 3600000000000 * 24 * 365 * 10"

text \<open>
  Modelled from the spec: the option functions of the loading cache (\<open>TTL\<close>,
  \<open>MaxKeys\<close>, \<open>LRU\<close>, \<open>OnEvicted\<close>) are not among the source files; the table of
  recognised options in the specification gives their effect, one field each.
\<close>

datatype Option = TTL int | MaxKeys int | LRU | OnEvicted

fun applyOption :: "Option \<Rightarrow> 'v loadingCacheImpl \<Rightarrow> 'v loadingCacheImpl" where
  "applyOption (TTL d) c = c\<lparr>ttl := d\<rparr>"
| "applyOption (MaxKeys n) c = c\<lparr>maxKeys := n\<rparr>"
| "applyOption LRU c = c\<lparr>isLRU := True\<rparr>"
| "applyOption OnEvicted c = c\<lparr>onEvicted := True\<rparr>"

definition NewLoadingCache :: "Option list \<Rightarrow> 'v loadingCacheImpl" where
  "NewLoadingCache options =
     fold applyOption options
       \<lparr>ttl = noEvictionTTL, maxKeys = 0, isLRU = False, onEvicted = False,
        stat = \<lparr>Hits = 0, Misses = 0, Added = 0, Evicted = 0\<rparr>,
        items = [], evictList = [], elems = Map.empty, nextElem = 0,
        evictedCalls = []\<rparr>"

section \<open>The list and the eviction primitive\<close>

text \<open>\<open>ent.Value.(*cacheItem)\<close>: the item an element points to.\<close>

definition elemValue :: "'v loadingCacheImpl \<Rightarrow> elem \<Rightarrow> 'v cacheItem" where
  "elemValue c e = the (elems c e)"

text \<open>
  \<open>MoveToFront\<close> and \<open>Remove\<close> of \<open>container/list\<close> leave the list alone when the
  element is not one of its own.
\<close>

definition MoveToFront :: "elem \<Rightarrow> elem list \<Rightarrow> elem list" where
  "MoveToFront e l = (if e \<in> set l then e # remove1 e l else l)"

definition Back :: "elem list \<Rightarrow> elem option" where
  "Back l = (if l = [] then None else Some (last l))"

definition removeElement :: "elem \<Rightarrow> 'v loadingCacheImpl \<Rightarrow> 'v loadingCacheImpl" where
  "removeElement e c =
     (let kv = elemValue c e in
      c\<lparr>evictList := remove1 e (evictList c),
        items := AList.delete (key kv) (items c),
        stat := (stat c)\<lparr>Evicted := Evicted (stat c) + 1\<rparr>,
        evictedCalls := (if onEvicted c then (key kv, val kv) # evictedCalls c
                         else evictedCalls c)\<rparr>)"

definition removeOldest :: "'v loadingCacheImpl \<Rightarrow> 'v loadingCacheImpl" where
  "removeOldest c =
     (case Back (evictList c) of
        Some ent \<Rightarrow> removeElement ent c
      | None \<Rightarrow> c)"

definition removeOldestIfExpired :: "int \<Rightarrow> 'v loadingCacheImpl \<Rightarrow> 'v loadingCacheImpl" where
  "removeOldestIfExpired now c =
     (case Back (evictList c) of
        Some ent \<Rightarrow> if expiresAt (elemValue c ent) < now then removeElement ent c else c
      | None \<Rightarrow> c)"

definition keys :: "'v loadingCacheImpl \<Rightarrow> string list" where
  "keys c = map (\<lambda>ent. key (elemValue c ent)) (rev (evictList c))"

section \<open>The operations of the loading cache\<close>

text \<open>
  \<open>Set\<close> reads the clock when it starts (\<open>now\<close>, from which the expiry is computed)
  and, on the path of a fresh key, once more inside \<open>removeOldestIfExpired\<close> (\<open>now'\<close>).
\<close>

definition Set ::
  "string \<Rightarrow> 'v \<Rightarrow> int \<Rightarrow> int \<Rightarrow> 'v loadingCacheImpl \<Rightarrow> 'v loadingCacheImpl" where
  "Set k v now now' c =
     (case map_of (items c) k of
        Some ent \<Rightarrow>
          c\<lparr>evictList := MoveToFront ent (evictList c),
            elems := (elems c)(ent \<mapsto> (elemValue c ent)\<lparr>expiresAt := now + ttl c, val := v\<rparr>)\<rparr>
      | None \<Rightarrow>
          (let entry = nextElem c;
               c1 = c\<lparr>elems := (elems c)(entry \<mapsto> \<lparr>expiresAt = now + ttl c, key = k, val = v\<rparr>),
                      nextElem := entry + 1,
                      evictList := entry # evictList c,
                      items := AList.update k entry (items c),
                      stat := (stat c)\<lparr>Added := Added (stat c) + 1\<rparr>\<rparr>;
               c2 = (if ttl c1 \<noteq> noEvictionTTL then removeOldestIfExpired now' c1 else c1)
           in if 0 < maxKeys c2 \<and> maxKeys c2 < int (length (items c2))
              then removeOldest c2 else c2))"

text \<open>The result of \<open>Get\<close> and \<open>Peek\<close> is an \<open>interface{}\<close>, \<open>nil\<close> or a stored value.\<close>

definition Get :: "string \<Rightarrow> int \<Rightarrow> 'v loadingCacheImpl \<Rightarrow> ('v option \<times> bool) \<times> 'v loadingCacheImpl" where
  "Get k now c =
     (case map_of (items c) k of
        Some ent \<Rightarrow>
          if expiresAt (elemValue c ent) < now
          then ((None, False), c\<lparr>stat := (stat c)\<lparr>Misses := Misses (stat c) + 1\<rparr>\<rparr>)
          else ((Some (val (elemValue c ent)), True),
                c\<lparr>evictList := (if isLRU c then MoveToFront ent (evictList c) else evictList c),
                  stat := (stat c)\<lparr>Hits := Hits (stat c) + 1\<rparr>\<rparr>)
      | None \<Rightarrow> ((None, False), c\<lparr>stat := (stat c)\<lparr>Misses := Misses (stat c) + 1\<rparr>\<rparr>))"

definition Peek :: "string \<Rightarrow> int \<Rightarrow> 'v loadingCacheImpl \<Rightarrow> 'v option \<times> bool" where
  "Peek k now c =
     (case map_of (items c) k of
        Some ent \<Rightarrow>
          if expiresAt (elemValue c ent) < now then (None, False)
          else (Some (val (elemValue c ent)), True)
      | None \<Rightarrow> (None, False))"

definition Keys :: "'v loadingCacheImpl \<Rightarrow> string list" where
  "Keys c = keys c"

definition Len :: "'v loadingCacheImpl \<Rightarrow> int" where
  "Len c = int (length (evictList c))"

definition Invalidate :: "string \<Rightarrow> 'v loadingCacheImpl \<Rightarrow> 'v loadingCacheImpl" where
  "Invalidate k c =
     (case map_of (items c) k of
        Some ent \<Rightarrow> removeElement ent c
      | None \<Rightarrow> c)"

text \<open>
  The range over the map visits every entry that is in the map when it is reached;
  \<open>removeElement\<close> deletes the entry the loop stands on.
\<close>

fun InvalidateFn_range ::
  "(string \<Rightarrow> bool) \<Rightarrow> (string \<times> elem) list \<Rightarrow> 'v loadingCacheImpl \<Rightarrow> 'v loadingCacheImpl" where
  "InvalidateFn_range fn [] c = c"
| "InvalidateFn_range fn ((k, ent) # rest) c =
     InvalidateFn_range fn rest (if fn k then removeElement ent c else c)"

definition InvalidateFn :: "(string \<Rightarrow> bool) \<Rightarrow> 'v loadingCacheImpl \<Rightarrow> 'v loadingCacheImpl" where
  "InvalidateFn fn c = InvalidateFn_range fn (items c) c"

definition RemoveOldest :: "'v loadingCacheImpl \<Rightarrow> 'v loadingCacheImpl" where
  "RemoveOldest c = removeOldest c"

text \<open>
  \<open>DeleteExpired\<close> walks the keys from the oldest. \<open>c.items[key]\<close> is read without
  the presence check: a key that is not in the map gives a nil element, and reading
  its \<open>Value\<close> panics. The panic is the result \<open>None\<close>.
\<close>

fun DeleteExpired_range :: "int \<Rightarrow> string list \<Rightarrow> 'v loadingCacheImpl \<Rightarrow> 'v loadingCacheImpl option" where
  "DeleteExpired_range now [] c = Some c"
| "DeleteExpired_range now (k # ks) c =
     (case map_of (items c) k of
        None \<Rightarrow> None
      | Some ent \<Rightarrow>
          if expiresAt (elemValue c ent) < now
          then DeleteExpired_range now ks (removeElement ent c)
          else if \<not> isLRU c then Some c
          else DeleteExpired_range now ks c)"

definition DeleteExpired :: "int \<Rightarrow> 'v loadingCacheImpl \<Rightarrow> 'v loadingCacheImpl option" where
  "DeleteExpired now c = DeleteExpired_range now (keys c) c"

fun Purge_range :: "(string \<times> elem) list \<Rightarrow> 'v loadingCacheImpl \<Rightarrow> 'v loadingCacheImpl" where
  "Purge_range [] c = c"
| "Purge_range ((k, v) # rest) c =
     Purge_range rest
       (c\<lparr>items := AList.delete k (items c),
          stat := (stat c)\<lparr>Evicted := Evicted (stat c) + 1\<rparr>,
          evictedCalls := (if onEvicted c then (k, val (elemValue c v)) # evictedCalls c
                           else evictedCalls c)\<rparr>)"

definition Purge :: "'v loadingCacheImpl \<Rightarrow> 'v loadingCacheImpl" where
  "Purge c = (Purge_range (items c) c)\<lparr>evictList := []\<rparr>"

definition Stat :: "'v loadingCacheImpl \<Rightarrow> Stats" where
  "Stat c = stat c"

section \<open>The legacy adapter\<close>

text \<open>
  \<open>cacheImpl\<close> embeds the newer cache and overrides \<open>Get\<close> and \<open>Peek\<close>. The newer
  core is a parameter: a \<open>Get\<close> (or \<open>Peek\<close>) that maps a key and the core's state to a
  value, the presence flag and the next state. \<open>zero\<close> is \<open>*new(V)\<close>, the zero value
  of the value type.
\<close>

definition cacheImpl_Get ::
  "('k \<Rightarrow> 's \<Rightarrow> ('v \<times> bool) \<times> 's) \<Rightarrow> 'v \<Rightarrow> 'k \<Rightarrow> 's \<Rightarrow> ('v \<times> bool) \<times> 's" where
  "cacheImpl_Get coreGet zero k s =
     (case coreGet k s of
        ((v, ok), s') \<Rightarrow> if \<not> ok then ((zero, ok), s') else ((v, ok), s'))"

definition cacheImpl_Peek ::
  "('k \<Rightarrow> 's \<Rightarrow> ('v \<times> bool) \<times> 's) \<Rightarrow> 'v \<Rightarrow> 'k \<Rightarrow> 's \<Rightarrow> ('v \<times> bool) \<times> 's" where
  "cacheImpl_Peek corePeek zero k s =
     (case corePeek k s of
        ((v, ok), s') \<Rightarrow> if \<not> ok then ((zero, ok), s') else ((v, ok), s'))"

section \<open>Reachable states and their invariants\<close>

text \<open>
  \<open>reachable t c\<close>: the state \<open>c\<close> results from a new cache by operations whose clock
  readings never decrease, the latest reading being at most \<open>t\<close>. (\<open>time.Now()\<close> carries
  a monotonic reading, \<open>Add\<close> keeps it and \<open>After\<close> compares by it.) \<open>Peek\<close>, \<open>Keys\<close>,
  \<open>Len\<close> and \<open>Stat\<close> leave the state as it is; time may pass between operations. The
  configuration is set by the options of the constructor only.
\<close>

inductive reachable :: "int \<Rightarrow> 'v loadingCacheImpl \<Rightarrow> bool" where
  reach_New: "reachable t (NewLoadingCache options)"
| reach_wait: "reachable t c \<Longrightarrow> t \<le> t' \<Longrightarrow> reachable t' c"
| reach_Set:
    "reachable t c \<Longrightarrow> t \<le> now \<Longrightarrow> now \<le> now' \<Longrightarrow> reachable now' (Set k v now now' c)"
| reach_Get: "reachable t c \<Longrightarrow> t \<le> now \<Longrightarrow> reachable now (snd (Get k now c))"
| reach_Invalidate: "reachable t c \<Longrightarrow> reachable t (Invalidate k c)"
| reach_InvalidateFn: "reachable t c \<Longrightarrow> reachable t (InvalidateFn fn c)"
| reach_RemoveOldest: "reachable t c \<Longrightarrow> reachable t (RemoveOldest c)"
| reach_DeleteExpired:
    "reachable t c \<Longrightarrow> t \<le> now \<Longrightarrow> DeleteExpired now c = Some c' \<Longrightarrow> reachable now c'"
| reach_Purge: "reachable t c \<Longrightarrow> reachable t (Purge c)"

text \<open>
  The structure of a reachable state: the map and the list hold the same elements,
  one per key, every element is allocated, and the counters account for the size.
\<close>

definition cache_inv :: "'v loadingCacheImpl \<Rightarrow> bool" where
  "cache_inv c \<longleftrightarrow>
     distinct (map fst (items c)) \<and> distinct (evictList c) \<and>
     length (items c) = length (evictList c) \<and>
     (\<forall>k e. map_of (items c) k = Some e \<longrightarrow> e \<in> set (evictList c) \<and> key (elemValue c e) = k) \<and>
     (\<forall>e\<in>set (evictList c).
        map_of (items c) (key (elemValue c e)) = Some e \<and> e < nextElem c \<and> elems c e \<noteq> None) \<and>
     Added (stat c) - Evicted (stat c) = int (length (evictList c))"

definition size_inv :: "'v loadingCacheImpl \<Rightarrow> bool" where
  "size_inv c \<longleftrightarrow> (0 < maxKeys c \<longrightarrow> int (length (evictList c)) \<le> maxKeys c)"

text \<open>
  Expiry times in a state reached by time \<open>t\<close>: no entry outlives \<open>t + ttl\<close>, and
  without LRU the list is ordered by expiry, the latest at the front.
\<close>

definition exp_inv :: "int \<Rightarrow> 'v loadingCacheImpl \<Rightarrow> bool" where
  "exp_inv t c \<longleftrightarrow>
     (\<forall>e\<in>set (evictList c). expiresAt (elemValue c e) \<le> t + ttl c) \<and>
     (\<not> isLRU c \<longrightarrow>
        sorted_wrt (\<lambda>a b. expiresAt (elemValue c b) \<le> expiresAt (elemValue c a)) (evictList c))"

section \<open>The eviction primitive keeps the structure\<close>

lemma cache_invD:
  assumes "cache_inv c"
  shows "distinct (map fst (items c))" and "distinct (evictList c)"
    and "length (items c) = length (evictList c)"
    and "\<And>k e. map_of (items c) k = Some e \<Longrightarrow> e \<in> set (evictList c)"
    and "\<And>k e. map_of (items c) k = Some e \<Longrightarrow> key (elemValue c e) = k"
    and "\<And>e. e \<in> set (evictList c) \<Longrightarrow> map_of (items c) (key (elemValue c e)) = Some e"
    and "\<And>e. e \<in> set (evictList c) \<Longrightarrow> e < nextElem c"
    and "\<And>e. e \<in> set (evictList c) \<Longrightarrow> elems c e \<noteq> None"
    and "Added (stat c) - Evicted (stat c) = int (length (evictList c))"
  using assms unfolding cache_inv_def by blast+

lemma removeElement_fields [simp]:
  "evictList (removeElement e c) = remove1 e (evictList c)"
  "items (removeElement e c) = AList.delete (key (elemValue c e)) (items c)"
  "elems (removeElement e c) = elems c"
  "nextElem (removeElement e c) = nextElem c"
  "ttl (removeElement e c) = ttl c"
  "maxKeys (removeElement e c) = maxKeys c"
  "isLRU (removeElement e c) = isLRU c"
  "onEvicted (removeElement e c) = onEvicted c"
  "Added (stat (removeElement e c)) = Added (stat c)"
  "Hits (stat (removeElement e c)) = Hits (stat c)"
  "Misses (stat (removeElement e c)) = Misses (stat c)"
  "Evicted (stat (removeElement e c)) = Evicted (stat c) + 1"
  "elemValue (removeElement e c) x = elemValue c x"
  by (simp_all add: removeElement_def elemValue_def Let_def)

lemma length_delete_present:
  "distinct (map fst al) \<Longrightarrow> map_of al k = Some e \<Longrightarrow> Suc (length (AList.delete k al)) = length al"
proof (induction al)
  case Nil
  then show ?case by simp
next
  case (Cons p al)
  show ?case
  proof (cases "fst p = k")
    case True
    with Cons.prems have "k \<notin> fst ` set al" by auto
    then have "AList.delete k al = al" by (simp add: delete_id)
    with True show ?thesis by (cases p) simp
  next
    case False
    with Cons show ?thesis by (cases p) (auto split: if_splits)
  qed
qed

lemma removeElement_inv:
  assumes inv: "cache_inv c" and mem: "e \<in> set (evictList c)"
  shows "cache_inv (removeElement e c)"
proof -
  let ?k = "key (elemValue c e)"
  from inv mem have look: "map_of (items c) ?k = Some e"
    by (simp add: cache_inv_def)
  from inv have d1: "distinct (map fst (items c))" and d2: "distinct (evictList c)"
    and len: "length (items c) = length (evictList c)"
    by (simp_all add: cache_inv_def)
  have l1: "Suc (length (AList.delete ?k (items c))) = length (items c)"
    using d1 look by (rule length_delete_present)
  have l2: "Suc (length (remove1 e (evictList c))) = length (evictList c)"
    using mem by (simp add: length_remove1) (metis length_pos_if_in_set Suc_pred)
  have a: "distinct (map fst (items (removeElement e c)))"
    using d1 by (simp add: distinct_delete)
  have b: "distinct (evictList (removeElement e c))"
    using d2 by simp
  have c': "length (items (removeElement e c)) = length (evictList (removeElement e c))"
    using l1 l2 len by simp
  from inv have m2l: "\<And>k x. map_of (items c) k = Some x \<Longrightarrow> x \<in> set (evictList c) \<and> key (elemValue c x) = k"
    unfolding cache_inv_def by blast
  from inv have l2m: "\<And>x. x \<in> set (evictList c) \<Longrightarrow>
      map_of (items c) (key (elemValue c x)) = Some x \<and> x < nextElem c \<and> elems c x \<noteq> None"
    unfolding cache_inv_def by blast
  have d: "\<forall>k x. map_of (items (removeElement e c)) k = Some x \<longrightarrow>
             x \<in> set (evictList (removeElement e c)) \<and> key (elemValue (removeElement e c) x) = k"
  proof (intro allI impI)
    fix k x assume "map_of (items (removeElement e c)) k = Some x"
    then have kk: "k \<noteq> ?k" and lx: "map_of (items c) k = Some x"
      by (auto simp: delete_conv split: if_splits)
    from m2l[OF lx] have xin: "x \<in> set (evictList c)" and kx: "key (elemValue c x) = k" by simp_all
    from kx kk have "x \<noteq> e" by auto
    with xin d2 kx show "x \<in> set (evictList (removeElement e c)) \<and> key (elemValue (removeElement e c) x) = k"
      by simp
  qed
  have e': "\<forall>x\<in>set (evictList (removeElement e c)).
             map_of (items (removeElement e c)) (key (elemValue (removeElement e c) x)) = Some x \<and>
             x < nextElem (removeElement e c) \<and> elems (removeElement e c) x \<noteq> None"
  proof
    fix x assume "x \<in> set (evictList (removeElement e c))"
    with d2 have xin: "x \<in> set (evictList c)" and xe: "x \<noteq> e" by auto
    from l2m[OF xin] have lx: "map_of (items c) (key (elemValue c x)) = Some x"
      and rest: "x < nextElem c" "elems c x \<noteq> None" by simp_all
    from lx look xe have "key (elemValue c x) \<noteq> ?k" by auto
    with lx rest show "map_of (items (removeElement e c)) (key (elemValue (removeElement e c) x)) = Some x \<and>
             x < nextElem (removeElement e c) \<and> elems (removeElement e c) x \<noteq> None"
      by (simp add: delete_conv)
  qed
  have f: "Added (stat (removeElement e c)) - Evicted (stat (removeElement e c)) =
             int (length (evictList (removeElement e c)))"
    using cache_invD(9)[OF inv] l2 by simp
  show ?thesis
    unfolding cache_inv_def using a b c' d e' f by blast
qed

lemma removeElement_size_inv: "size_inv c \<Longrightarrow> size_inv (removeElement e c)"
proof -
  have "length (remove1 e (evictList c)) \<le> length (evictList c)"
    by (simp add: length_remove1)
  then show "size_inv c \<Longrightarrow> size_inv (removeElement e c)"
    unfolding size_inv_def by auto
qed

lemma Back_in_set: "Back l = Some e \<Longrightarrow> e \<in> set l"
  by (auto simp: Back_def split: if_splits)

lemma removeOldest_inv: "cache_inv c \<Longrightarrow> cache_inv (removeOldest c)"
  by (auto simp: removeOldest_def removeElement_inv Back_in_set split: option.splits)

lemma removeOldestIfExpired_inv: "cache_inv c \<Longrightarrow> cache_inv (removeOldestIfExpired now c)"
  by (auto simp: removeOldestIfExpired_def removeElement_inv Back_in_set split: option.splits)

lemma removeOldest_size_inv: "size_inv c \<Longrightarrow> size_inv (removeOldest c)"
  by (auto simp: removeOldest_def removeElement_size_inv split: option.splits)

lemma length_update_fresh:
  "k \<notin> fst ` set al \<Longrightarrow> length (AList.update k v al) = Suc (length al)"
  by (induction al) auto

lemma MoveToFront_set [simp]: "set (MoveToFront e l) = set l"
proof (cases "e \<in> set l")
  case True
  have "x \<in> set (remove1 e l) \<or> x = e" if "x \<in> set l" for x
    using that by (cases "x = e") (simp_all add: in_set_remove1)
  moreover have "x \<in> set l" if "x \<in> set (remove1 e l)" for x
    using that notin_set_remove1[of x l e] by blast
  ultimately show ?thesis using True by (auto simp: MoveToFront_def)
next
  case False
  then show ?thesis by (simp add: MoveToFront_def)
qed

lemma MoveToFront_distinct [simp]: "distinct l \<Longrightarrow> distinct (MoveToFront e l)"
  by (auto simp: MoveToFront_def)

lemma MoveToFront_length [simp]: "length (MoveToFront e l) = length l"
  by (cases "e \<in> set l") (auto simp: MoveToFront_def length_remove1 dest: length_pos_if_in_set)

text \<open>The two states that \<open>Set\<close> builds before its bookkeeping.\<close>

lemma Set_update_inv:
  assumes inv: "cache_inv c" and look: "map_of (items c) k = Some ent"
  shows "cache_inv (c\<lparr>evictList := MoveToFront ent (evictList c),
            elems := (elems c)(ent \<mapsto> (elemValue c ent)\<lparr>expiresAt := x, val := v\<rparr>)\<rparr>)"
    (is "cache_inv ?c'")
proof -
  have ev: "key (elemValue ?c' e) = key (elemValue c e)" for e
    by (simp add: elemValue_def)
  have el: "elems ?c' e \<noteq> None" if "elems c e \<noteq> None" for e
    using that by simp
  show ?thesis
    unfolding cache_inv_def
    using cache_invD[OF inv] by (simp add: ev)
qed

lemma Set_insert_inv:
  assumes inv: "cache_inv c" and look: "map_of (items c) k = None"
  shows "cache_inv (c\<lparr>elems := (elems c)(nextElem c \<mapsto> \<lparr>expiresAt = x, key = k, val = v\<rparr>),
            nextElem := Suc (nextElem c),
            evictList := nextElem c # evictList c,
            items := AList.update k (nextElem c) (items c),
            stat := (stat c)\<lparr>Added := Added (stat c) + 1\<rparr>\<rparr>)"
    (is "cache_inv ?c'")
proof -
  note D = cache_invD[OF inv]
  have fresh: "nextElem c \<notin> set (evictList c)"
    using D(7) by blast
  have knew: "k \<notin> fst ` set (items c)"
    using look by (simp add: map_of_eq_None_iff)
  have ev_new: "elemValue ?c' (nextElem c) = \<lparr>expiresAt = x, key = k, val = v\<rparr>"
    by (simp add: elemValue_def)
  have ev_old: "elemValue ?c' e = elemValue c e" if "e \<in> set (evictList c)" for e
    using that fresh by (auto simp: elemValue_def)
  have a: "distinct (map fst (items ?c'))"
    using D(1) by (simp add: distinct_update)
  have b: "distinct (evictList ?c')"
    using D(2) fresh by simp
  have l: "length (items ?c') = length (evictList ?c')"
    using D(3) knew by (simp add: length_update_fresh)
  have d: "\<forall>k' e. map_of (items ?c') k' = Some e \<longrightarrow>
             e \<in> set (evictList ?c') \<and> key (elemValue ?c' e) = k'"
  proof (intro allI impI)
    fix k' e assume h: "map_of (items ?c') k' = Some e"
    show "e \<in> set (evictList ?c') \<and> key (elemValue ?c' e) = k'"
    proof (cases "k' = k")
      case True
      with h have "e = nextElem c" by (simp add: update_conv')
      with True ev_new show ?thesis by simp
    next
      case False
      with h have lk: "map_of (items c) k' = Some e" by (simp add: update_conv')
      from D(4)[OF lk] D(5)[OF lk] ev_old show ?thesis by simp
    qed
  qed
  have e: "\<forall>e\<in>set (evictList ?c').
             map_of (items ?c') (key (elemValue ?c' e)) = Some e \<and> e < nextElem ?c' \<and> elems ?c' e \<noteq> None"
  proof
    fix e assume "e \<in> set (evictList ?c')"
    then consider "e = nextElem c" | "e \<in> set (evictList c)" "e \<noteq> nextElem c"
      using fresh by auto
    then show "map_of (items ?c') (key (elemValue ?c' e)) = Some e \<and> e < nextElem ?c' \<and> elems ?c' e \<noteq> None"
    proof cases
      case 1
      with ev_new show ?thesis by (simp add: update_conv')
    next
      case 2
      from D(6)[OF 2(1)] look have "key (elemValue c e) \<noteq> k" by auto
      with D(6)[OF 2(1)] D(7)[OF 2(1)] D(8)[OF 2(1)] ev_old[OF 2(1)] 2(2)
      show ?thesis by (simp add: update_conv')
    qed
  qed
  have f: "Added (stat ?c') - Evicted (stat ?c') = int (length (evictList ?c'))"
    using D(9) by simp
  show ?thesis
    unfolding cache_inv_def using a b l d e f by blast
qed

lemma Set_inv: "cache_inv c \<Longrightarrow> cache_inv (Set k v now now' c)"
  by (simp add: Set_def Let_def Set_update_inv Set_insert_inv removeOldest_inv
      removeOldestIfExpired_inv split: option.splits)

section \<open>The operations keep the structure and the size bound\<close>

lemma removeOldest_length:
  "evictList c \<noteq> [] \<Longrightarrow> Suc (length (evictList (removeOldest c))) = length (evictList c)"
  by (simp add: removeOldest_def Back_def length_remove1)

lemma removeOldestIfExpired_length:
  "length (evictList (removeOldestIfExpired now c)) \<le> length (evictList c)"
  by (simp add: removeOldestIfExpired_def length_remove1 split: option.splits)

lemma removeOldestIfExpired_maxKeys [simp]:
  "maxKeys (removeOldestIfExpired now c) = maxKeys c"
  by (simp add: removeOldestIfExpired_def split: option.splits)

lemma removeOldest_maxKeys [simp]: "maxKeys (removeOldest c) = maxKeys c"
  by (simp add: removeOldest_def split: option.splits)

text \<open>After the trim, one removal from the back is enough to restore the cap.\<close>

lemma Set_enforce_size:
  assumes inv: "cache_inv c2" and le: "int (length (evictList c2)) \<le> maxKeys c2 + 1"
  shows "size_inv (if 0 < maxKeys c2 \<and> maxKeys c2 < int (length (items c2))
                   then removeOldest c2 else c2)"
proof (cases "0 < maxKeys c2 \<and> maxKeys c2 < int (length (items c2))")
  case True
  with cache_invD(3)[OF inv] have ne: "evictList c2 \<noteq> []" by auto
  from removeOldest_length[OF ne] le True show ?thesis
    by (simp add: size_inv_def)
next
  case False
  with cache_invD(3)[OF inv] show ?thesis by (auto simp: size_inv_def)
qed

lemma Set_size_inv:
  assumes inv: "cache_inv c" and sz: "size_inv c"
  shows "size_inv (Set k v now now' c)"
proof (cases "map_of (items c) k")
  case (Some ent)
  with sz show ?thesis by (simp add: Set_def size_inv_def)
next
  case None
  define c1 where "c1 = c\<lparr>elems := (elems c)(nextElem c \<mapsto> \<lparr>expiresAt = now + ttl c, key = k, val = v\<rparr>),
            nextElem := Suc (nextElem c),
            evictList := nextElem c # evictList c,
            items := AList.update k (nextElem c) (items c),
            stat := (stat c)\<lparr>Added := Added (stat c) + 1\<rparr>\<rparr>"
  define c2 where "c2 = (if ttl c1 \<noteq> noEvictionTTL then removeOldestIfExpired now' c1 else c1)"
  have inv1: "cache_inv c1"
    unfolding c1_def using inv None by (rule Set_insert_inv)
  then have inv2: "cache_inv c2"
    by (simp add: c2_def removeOldestIfExpired_inv)
  have mk: "maxKeys c2 = maxKeys c" by (simp add: c2_def c1_def)
  have "length (evictList c2) \<le> length (evictList c1)"
    by (simp add: c2_def removeOldestIfExpired_length)
  then have len2: "length (evictList c2) \<le> Suc (length (evictList c))"
    by (simp add: c1_def)
  have set_eq: "Set k v now now' c =
      (if 0 < maxKeys c2 \<and> maxKeys c2 < int (length (items c2)) then removeOldest c2 else c2)"
    using None by (simp add: Set_def Let_def c2_def c1_def)
  show ?thesis
  proof (cases "0 < maxKeys c")
    case True
    with sz have "int (length (evictList c)) \<le> maxKeys c" by (simp add: size_inv_def)
    with len2 mk have "int (length (evictList c2)) \<le> maxKeys c2 + 1" by simp
    with inv2 show ?thesis unfolding set_eq by (rule Set_enforce_size)
  next
    case False
    then have "maxKeys (Set k v now now' c) = maxKeys c"
      unfolding set_eq using mk by simp
    with False show ?thesis by (simp add: size_inv_def)
  qed
qed

text \<open>The structure does not depend on the order of the list nor on the hit counters.\<close>

lemma cache_inv_reorder:
  assumes inv: "cache_inv c"
    and same: "items c' = items c" "elems c' = elems c" "nextElem c' = nextElem c"
      "Added (stat c') = Added (stat c)" "Evicted (stat c') = Evicted (stat c)"
    and perm: "set (evictList c') = set (evictList c)" "distinct (evictList c')"
      "length (evictList c') = length (evictList c)"
  shows "cache_inv c'"
proof -
  have ev: "elemValue c' = elemValue c"
    by (rule ext) (simp add: elemValue_def same)
  show ?thesis
    unfolding cache_inv_def ev same perm
    using inv perm(2) unfolding cache_inv_def by simp
qed

lemma Get_inv: "cache_inv c \<Longrightarrow> cache_inv (snd (Get k now c))"
  by (rule cache_inv_reorder[where c = c])
     (simp_all add: Get_def cache_invD(2) split: option.splits)

lemma Get_size_inv: "size_inv c \<Longrightarrow> size_inv (snd (Get k now c))"
  by (simp add: Get_def size_inv_def split: option.splits)

lemma Invalidate_inv: "cache_inv c \<Longrightarrow> cache_inv (Invalidate k c)"
  by (auto simp: Invalidate_def split: option.splits intro: removeElement_inv dest: cache_invD(4))

lemma Invalidate_size_inv: "size_inv c \<Longrightarrow> size_inv (Invalidate k c)"
  by (simp add: Invalidate_def removeElement_size_inv split: option.splits)

lemma RemoveOldest_inv: "cache_inv c \<Longrightarrow> cache_inv (RemoveOldest c)"
  by (simp add: RemoveOldest_def removeOldest_inv)

lemma RemoveOldest_size_inv: "size_inv c \<Longrightarrow> size_inv (RemoveOldest c)"
  by (simp add: RemoveOldest_def removeOldest_size_inv)

lemma InvalidateFn_range_inv:
  "cache_inv c \<Longrightarrow> distinct (map fst al) \<Longrightarrow> set al \<subseteq> set (items c) \<Longrightarrow>
   cache_inv (InvalidateFn_range fn al c)"
proof (induction al arbitrary: c)
  case Nil
  then show ?case by simp
next
  case (Cons p al)
  obtain k ent where p: "p = (k, ent)" by (cases p)
  from Cons.prems p have pin: "(k, ent) \<in> set (items c)" by simp
  with cache_invD(1)[OF Cons.prems(1)] have look: "map_of (items c) k = Some ent"
    by simp
  note ein = cache_invD(4)[OF Cons.prems(1) look] and kk = cache_invD(5)[OF Cons.prems(1) look]
  show ?case
  proof (cases "fn k")
    case True
    have "cache_inv (removeElement ent c)"
      using Cons.prems(1) ein by (rule removeElement_inv)
    moreover have "distinct (map fst al)" using Cons.prems(2) by simp
    moreover have "set al \<subseteq> set (items (removeElement ent c))"
      using Cons.prems(2,3) p kk by (force simp: AList.delete_eq)
    ultimately have "cache_inv (InvalidateFn_range fn al (removeElement ent c))"
      by (rule Cons.IH)
    with True p show ?thesis by simp
  next
    case False
    have "cache_inv (InvalidateFn_range fn al c)"
      using Cons.prems by (intro Cons.IH) auto
    with False p show ?thesis by simp
  qed
qed

lemma InvalidateFn_inv: "cache_inv c \<Longrightarrow> cache_inv (InvalidateFn fn c)"
  unfolding InvalidateFn_def
  by (rule InvalidateFn_range_inv) (simp_all add: cache_invD(1))

lemma InvalidateFn_range_size_inv:
  "size_inv c \<Longrightarrow> size_inv (InvalidateFn_range fn al c)"
  by (induction al arbitrary: c) (auto simp: removeElement_size_inv)

lemma InvalidateFn_size_inv: "size_inv c \<Longrightarrow> size_inv (InvalidateFn fn c)"
  by (simp add: InvalidateFn_def InvalidateFn_range_size_inv)

section \<open>Purge and DeleteExpired\<close>

lemma Purge_range_fields [simp]:
  "evictList (Purge_range al c) = evictList c"
  "elems (Purge_range al c) = elems c"
  "nextElem (Purge_range al c) = nextElem c"
  "ttl (Purge_range al c) = ttl c"
  "maxKeys (Purge_range al c) = maxKeys c"
  "isLRU (Purge_range al c) = isLRU c"
  "onEvicted (Purge_range al c) = onEvicted c"
  "Added (stat (Purge_range al c)) = Added (stat c)"
  "Hits (stat (Purge_range al c)) = Hits (stat c)"
  "Misses (stat (Purge_range al c)) = Misses (stat c)"
  by (induction al c rule: Purge_range.induct; simp)+

lemma Purge_range_Evicted:
  "Evicted (stat (Purge_range al c)) = Evicted (stat c) + int (length al)"
  by (induction al c rule: Purge_range.induct) simp_all

lemma Purge_range_items:
  "items (Purge_range al c) = filter (\<lambda>p. fst p \<notin> fst ` set al) (items c)"
proof (induction al arbitrary: c)
  case Nil
  show ?case by simp
next
  case (Cons p al)
  obtain k e where p: "p = (k, e)" by (cases p)
  have "filter (\<lambda>q. fst q \<notin> fst ` set al) (AList.delete k xs) =
        filter (\<lambda>q. fst q \<notin> fst ` set (p # al)) xs" for xs
    unfolding p by (induction xs) auto
  with Cons.IH p show ?case by simp
qed

lemma Purge_items [simp]: "items (Purge c) = []"
  by (simp add: Purge_def Purge_range_items filter_empty_conv)

lemma Purge_evictList [simp]: "evictList (Purge c) = []"
  by (simp add: Purge_def)

lemma Purge_Evicted: "Evicted (stat (Purge c)) = Evicted (stat c) + int (length (items c))"
  by (simp add: Purge_def Purge_range_Evicted)

lemma Purge_Added [simp]: "Added (stat (Purge c)) = Added (stat c)"
  by (simp add: Purge_def)

lemma Purge_inv: "cache_inv c \<Longrightarrow> cache_inv (Purge c)"
  unfolding cache_inv_def[of "Purge c"]
  using cache_invD(3,9)[of c] by (simp add: Purge_Evicted)

lemma Purge_size_inv: "size_inv c \<Longrightarrow> size_inv (Purge c)"
  by (auto simp: size_inv_def Purge_def)

text \<open>
  The walk of \<open>DeleteExpired\<close>. The keys still to visit are those of the front part
  \<open>F\<close> of the list, the oldest first; \<open>S\<close> holds the elements already visited and kept.
\<close>

lemma DeleteExpired_range_result:
  assumes "cache_inv c" and "evictList c = F @ S"
    and "ks = map (\<lambda>ent. key (elemValue c ent)) (rev F)"
  shows "\<exists>c'. DeleteExpired_range now ks c = Some c' \<and> cache_inv c' \<and>
           elems c' = elems c \<and> ttl c' = ttl c \<and> maxKeys c' = maxKeys c \<and>
           isLRU c' = isLRU c \<and> Added (stat c') = Added (stat c) \<and>
           evictList c' =
             (if isLRU c then filter (\<lambda>e. \<not> expiresAt (elemValue c e) < now) F
              else rev (dropWhile (\<lambda>e. expiresAt (elemValue c e) < now) (rev F))) @ S"
  using assms
proof (induction ks arbitrary: c F S)
  case Nil
  then show ?case by simp
next
  case (Cons k ks)
  from Cons.prems(3) obtain x xs where rF: "rev F = x # xs"
    and kx: "k = key (elemValue c x)"
    and ks: "ks = map (\<lambda>ent. key (elemValue c ent)) xs"
    by (cases "rev F") auto
  from rF have F: "F = rev xs @ [x]" by (metis rev_rev_ident rev.simps(2))
  have xin: "x \<in> set (evictList c)" by (simp add: Cons.prems(2) F)
  have look: "map_of (items c) k = Some x"
    unfolding kx using Cons.prems(1) xin by (rule cache_invD(6))
  have dist: "distinct (evictList c)" using Cons.prems(1) by (rule cache_invD(2))
  then have xnot: "x \<notin> set xs" by (simp add: Cons.prems(2) F)
  show ?case
  proof (cases "expiresAt (elemValue c x) < now")
    case True
    let ?c1 = "removeElement x c"
    have inv1: "cache_inv ?c1"
      using Cons.prems(1) xin by (rule removeElement_inv)
    have l1: "evictList ?c1 = rev xs @ S"
      using xnot by (simp add: Cons.prems(2) F remove1_append)
    have ev1: "elemValue ?c1 = elemValue c"
      by (rule ext) simp
    have ks1: "ks = map (\<lambda>ent. key (elemValue ?c1 ent)) (rev (rev xs))"
      by (simp add: ks)
    from Cons.IH[OF inv1 l1 ks1] obtain c' where
      run: "DeleteExpired_range now ks ?c1 = Some c'" and inv': "cache_inv c'"
      and same: "elems c' = elems c" "ttl c' = ttl c" "maxKeys c' = maxKeys c"
        "isLRU c' = isLRU c" "Added (stat c') = Added (stat c)"
      and l': "evictList c' =
             (if isLRU c then filter (\<lambda>e. \<not> expiresAt (elemValue c e) < now) (rev xs)
              else rev (dropWhile (\<lambda>e. expiresAt (elemValue c e) < now) xs)) @ S"
      unfolding ev1 by auto
    have "DeleteExpired_range now (k # ks) c = Some c'"
      using look True run by simp
    moreover have "evictList c' =
             (if isLRU c then filter (\<lambda>e. \<not> expiresAt (elemValue c e) < now) F
              else rev (dropWhile (\<lambda>e. expiresAt (elemValue c e) < now) (rev F))) @ S"
      unfolding l' rF using True by (simp add: F)
    ultimately show ?thesis using inv' same by blast
  next
    case False
    show ?thesis
    proof (cases "isLRU c")
      case lru: True
      have l1: "evictList c = rev xs @ (x # S)"
        by (simp add: Cons.prems(2) F)
      have ks1: "ks = map (\<lambda>ent. key (elemValue c ent)) (rev (rev xs))"
        by (simp add: ks)
      from Cons.IH[OF Cons.prems(1) l1 ks1] obtain c' where
        run: "DeleteExpired_range now ks c = Some c'" and inv': "cache_inv c'"
        and same: "elems c' = elems c" "ttl c' = ttl c" "maxKeys c' = maxKeys c"
          "isLRU c' = isLRU c" "Added (stat c') = Added (stat c)"
        and l': "evictList c' =
               filter (\<lambda>e. \<not> expiresAt (elemValue c e) < now) (rev xs) @ x # S"
        using lru by auto
      have "DeleteExpired_range now (k # ks) c = Some c'"
        using look False lru run by simp
      moreover have "evictList c' =
             (if isLRU c then filter (\<lambda>e. \<not> expiresAt (elemValue c e) < now) F
              else rev (dropWhile (\<lambda>e. expiresAt (elemValue c e) < now) (rev F))) @ S"
        unfolding l' using False lru by (simp add: F)
      ultimately show ?thesis using inv' same by blast
    next
      case lrc: False
      have "DeleteExpired_range now (k # ks) c = Some c"
        using look False lrc by simp
      moreover have "evictList c =
             (if isLRU c then filter (\<lambda>e. \<not> expiresAt (elemValue c e) < now) F
              else rev (dropWhile (\<lambda>e. expiresAt (elemValue c e) < now) (rev F))) @ S"
        unfolding rF using False lrc Cons.prems(2) by (simp add: F)
      ultimately show ?thesis using Cons.prems(1) by blast
    qed
  qed
qed

lemma DeleteExpired_result:
  assumes "cache_inv c"
  shows "\<exists>c'. DeleteExpired now c = Some c' \<and> cache_inv c' \<and>
           elems c' = elems c \<and> ttl c' = ttl c \<and> maxKeys c' = maxKeys c \<and>
           isLRU c' = isLRU c \<and> Added (stat c') = Added (stat c) \<and>
           evictList c' =
             (if isLRU c then filter (\<lambda>e. \<not> expiresAt (elemValue c e) < now) (evictList c)
              else rev (dropWhile (\<lambda>e. expiresAt (elemValue c e) < now) (rev (evictList c))))"
proof -
  have a: "evictList c = evictList c @ []" by simp
  have b: "keys c = map (\<lambda>ent. key (elemValue c ent)) (rev (evictList c))"
    by (simp add: keys_def)
  from DeleteExpired_range_result[OF assms a b, of now] show ?thesis
    unfolding DeleteExpired_def by simp
qed

section \<open>Invariants of the reachable states\<close>

lemma applyOption_fields [simp]:
  "items (applyOption opt c) = items c"
  "evictList (applyOption opt c) = evictList c"
  "elems (applyOption opt c) = elems c"
  "nextElem (applyOption opt c) = nextElem c"
  "stat (applyOption opt c) = stat c"
  by (cases opt; simp)+

lemma fold_applyOption_fields [simp]:
  "items (fold applyOption opts c) = items c"
  "evictList (fold applyOption opts c) = evictList c"
  "elems (fold applyOption opts c) = elems c"
  "nextElem (fold applyOption opts c) = nextElem c"
  "stat (fold applyOption opts c) = stat c"
  by (induction opts arbitrary: c; simp)+

lemma NewLoadingCache_fields [simp]:
  "items (NewLoadingCache opts) = []"
  "evictList (NewLoadingCache opts) = []"
  "stat (NewLoadingCache opts) = \<lparr>Hits = 0, Misses = 0, Added = 0, Evicted = 0\<rparr>"
  by (simp_all add: NewLoadingCache_def)

lemma NewLoadingCache_inv: "cache_inv (NewLoadingCache opts)"
  by (simp add: cache_inv_def)

lemma NewLoadingCache_size_inv: "size_inv (NewLoadingCache opts)"
  by (simp add: size_inv_def)

lemma NewLoadingCache_exp_inv: "exp_inv t (NewLoadingCache opts)"
  by (simp add: exp_inv_def)

lemma DeleteExpired_size_inv:
  assumes "cache_inv c" and "size_inv c" and "DeleteExpired now c = Some c'"
  shows "size_inv c'"
proof -
  from DeleteExpired_result[OF assms(1), of now] assms(3)
  have mk: "maxKeys c' = maxKeys c"
    and l: "evictList c' =
             (if isLRU c then filter (\<lambda>e. \<not> expiresAt (elemValue c e) < now) (evictList c)
              else rev (dropWhile (\<lambda>e. expiresAt (elemValue c e) < now) (rev (evictList c))))"
    by auto
  have "length (evictList c') \<le> length (evictList c)"
    unfolding l by (simp add: length_dropWhile_le[of _ "rev (evictList c)", simplified])
  with assms(2) mk show ?thesis by (auto simp: size_inv_def)
qed

subsection \<open>Expiry times\<close>

lemma sorted_wrt_remove1: "sorted_wrt P xs \<Longrightarrow> sorted_wrt P (remove1 x xs)"
proof (induction xs)
  case Nil
  then show ?case by simp
next
  case (Cons y ys)
  then show ?case by (auto dest: notin_set_remove1)
qed

lemma exp_inv_mono: "exp_inv t c \<Longrightarrow> t \<le> t' \<Longrightarrow> exp_inv t' c"
  unfolding exp_inv_def by force

lemma removeElement_exp_inv: "exp_inv t c \<Longrightarrow> exp_inv t (removeElement e c)"
  unfolding exp_inv_def by (auto simp: sorted_wrt_remove1 dest: notin_set_remove1)

lemma removeOldest_exp_inv: "exp_inv t c \<Longrightarrow> exp_inv t (removeOldest c)"
  by (simp add: removeOldest_def removeElement_exp_inv split: option.splits)

lemma removeOldestIfExpired_exp_inv: "exp_inv t c \<Longrightarrow> exp_inv t (removeOldestIfExpired now c)"
  by (simp add: removeOldestIfExpired_def removeElement_exp_inv split: option.splits)

lemma removeOldestIfExpired_fields [simp]:
  "ttl (removeOldestIfExpired now c) = ttl c"
  "isLRU (removeOldestIfExpired now c) = isLRU c"
  by (simp_all add: removeOldestIfExpired_def split: option.splits)

text \<open>A write puts the latest expiry at the front.\<close>

lemma exp_inv_front:
  assumes old: "exp_inv t c" and t: "t \<le> now"
    and cfg: "ttl c' = ttl c" "isLRU c' = isLRU c"
    and l: "evictList c' = e # l'" "set l' \<subseteq> set (evictList c)"
      "sorted_wrt (\<lambda>a b. expiresAt (elemValue c b) \<le> expiresAt (elemValue c a)) (evictList c)
        \<Longrightarrow> sorted_wrt (\<lambda>a b. expiresAt (elemValue c b) \<le> expiresAt (elemValue c a)) l'"
    and e: "expiresAt (elemValue c' e) = now + ttl c"
    and others: "\<And>x. x \<in> set l' \<Longrightarrow> elemValue c' x = elemValue c x"
  shows "exp_inv now c'"
proof -
  have bound: "expiresAt (elemValue c' x) \<le> now + ttl c" if "x \<in> set l'" for x
  proof -
    from that l(2) old have "expiresAt (elemValue c x) \<le> t + ttl c"
      by (auto simp: exp_inv_def)
    with t others[OF that] show ?thesis by simp
  qed
  have srt: "sorted_wrt (\<lambda>a b. expiresAt (elemValue c' b) \<le> expiresAt (elemValue c' a)) l'"
    if "\<not> isLRU c"
  proof -
    from old that l(3)
    have "sorted_wrt (\<lambda>a b. expiresAt (elemValue c b) \<le> expiresAt (elemValue c a)) l'"
      by (simp add: exp_inv_def)
    then show ?thesis
      by (rule sorted_wrt_mono_rel[rotated]) (simp add: others)
  qed
  show ?thesis
    unfolding exp_inv_def l(1) cfg using bound srt e by auto
qed

lemma Set_exp_inv:
  assumes inv: "cache_inv c" and old: "exp_inv t c" and t: "t \<le> now"
  shows "exp_inv now (Set k v now now' c)"
proof (cases "map_of (items c) k")
  case (Some ent)
  let ?c' = "c\<lparr>evictList := MoveToFront ent (evictList c),
            elems := (elems c)(ent \<mapsto> (elemValue c ent)\<lparr>expiresAt := now + ttl c, val := v\<rparr>)\<rparr>"
  have ein: "ent \<in> set (evictList c)" using inv Some by (rule cache_invD(4))
  have dist: "distinct (evictList c)" using inv by (rule cache_invD(2))
  have "exp_inv now ?c'"
  proof (rule exp_inv_front[OF old t])
    show "evictList ?c' = ent # remove1 ent (evictList c)"
      using ein by (simp add: MoveToFront_def)
    show "set (remove1 ent (evictList c)) \<subseteq> set (evictList c)"
      by (rule set_remove1_subset)
    show "expiresAt (elemValue ?c' ent) = now + ttl c"
      by (simp add: elemValue_def)
    show "elemValue ?c' x = elemValue c x" if "x \<in> set (remove1 ent (evictList c))" for x
      using that dist by (auto simp: elemValue_def)
  qed (simp_all add: sorted_wrt_remove1)
  with Some show ?thesis by (simp add: Set_def)
next
  case None
  define c1 where "c1 = c\<lparr>elems := (elems c)(nextElem c \<mapsto> \<lparr>expiresAt = now + ttl c, key = k, val = v\<rparr>),
            nextElem := Suc (nextElem c),
            evictList := nextElem c # evictList c,
            items := AList.update k (nextElem c) (items c),
            stat := (stat c)\<lparr>Added := Added (stat c) + 1\<rparr>\<rparr>"
  define c2 where "c2 = (if ttl c1 \<noteq> noEvictionTTL then removeOldestIfExpired now' c1 else c1)"
  have fresh: "nextElem c \<notin> set (evictList c)"
    using cache_invD(7)[OF inv] by blast
  have "exp_inv now c1"
  proof (rule exp_inv_front[OF old t])
    show "evictList c1 = nextElem c # evictList c" by (simp add: c1_def)
    show "expiresAt (elemValue c1 (nextElem c)) = now + ttl c"
      by (simp add: c1_def elemValue_def)
    show "elemValue c1 x = elemValue c x" if "x \<in> set (evictList c)" for x
      using that fresh by (auto simp: c1_def elemValue_def)
  qed (simp_all add: c1_def)
  then have "exp_inv now c2"
    by (simp add: c2_def removeOldestIfExpired_exp_inv)
  then have "exp_inv now (if 0 < maxKeys c2 \<and> maxKeys c2 < int (length (items c2))
                          then removeOldest c2 else c2)"
    by (simp add: removeOldest_exp_inv)
  moreover have "Set k v now now' c =
      (if 0 < maxKeys c2 \<and> maxKeys c2 < int (length (items c2)) then removeOldest c2 else c2)"
    using None by (simp add: Set_def Let_def c2_def c1_def)
  ultimately show ?thesis by simp
qed

lemma Get_exp_inv:
  assumes old: "exp_inv t c" and t: "t \<le> now"
  shows "exp_inv now (snd (Get k now c))"
proof -
  have "exp_inv t (snd (Get k now c))"
    using old unfolding exp_inv_def
    by (auto simp: Get_def elemValue_def split: option.splits)
  then show ?thesis using t by (rule exp_inv_mono)
qed

lemma Invalidate_exp_inv: "exp_inv t c \<Longrightarrow> exp_inv t (Invalidate k c)"
  by (simp add: Invalidate_def removeElement_exp_inv split: option.splits)

lemma InvalidateFn_range_exp_inv: "exp_inv t c \<Longrightarrow> exp_inv t (InvalidateFn_range fn al c)"
  by (induction fn al c rule: InvalidateFn_range.induct) (simp_all add: removeElement_exp_inv)

lemma InvalidateFn_exp_inv: "exp_inv t c \<Longrightarrow> exp_inv t (InvalidateFn fn c)"
  by (simp add: InvalidateFn_def InvalidateFn_range_exp_inv)

lemma RemoveOldest_exp_inv: "exp_inv t c \<Longrightarrow> exp_inv t (RemoveOldest c)"
  by (simp add: RemoveOldest_def removeOldest_exp_inv)

lemma Purge_exp_inv: "exp_inv t (Purge c)"
  by (simp add: exp_inv_def)

lemma DeleteExpired_exp_inv:
  assumes inv: "cache_inv c" and old: "exp_inv t c" and run: "DeleteExpired now c = Some c'"
  shows "exp_inv t c'"
proof -
  let ?E = "\<lambda>e. expiresAt (elemValue c e) < now"
  let ?R = "\<lambda>a b. expiresAt (elemValue c b) \<le> expiresAt (elemValue c a)"
  from DeleteExpired_result[OF inv, of now] run
  have same: "elems c' = elems c" "ttl c' = ttl c" "isLRU c' = isLRU c"
    and l: "evictList c' =
             (if isLRU c then filter (\<lambda>e. \<not> ?E e) (evictList c)
              else rev (dropWhile ?E (rev (evictList c))))"
    by auto
  have ev: "elemValue c' = elemValue c"
    by (rule ext) (simp add: elemValue_def same)
  have sub: "set (evictList c') \<subseteq> set (evictList c)"
    unfolding l using set_dropWhileD[of _ ?E "rev (evictList c)"] by auto
  have srt: "sorted_wrt ?R (evictList c')" if lrc: "\<not> isLRU c"
  proof -
    from old lrc have "sorted_wrt ?R (evictList c)" by (simp add: exp_inv_def)
    then have "sorted_wrt (\<lambda>a b. ?R b a) (rev (evictList c))"
      by (simp add: sorted_wrt_rev)
    then have "sorted_wrt (\<lambda>a b. ?R b a) (dropWhile ?E (rev (evictList c)))"
      unfolding dropWhile_eq_drop by (rule sorted_wrt_drop)
    then show ?thesis using lrc by (simp add: l sorted_wrt_rev)
  qed
  show ?thesis
    unfolding exp_inv_def ev same using old sub srt by (auto simp: exp_inv_def)
qed

lemma reachable_inv: "reachable t c \<Longrightarrow> cache_inv c \<and> size_inv c \<and> exp_inv t c"
proof (induction rule: reachable.induct)
  case (reach_New t options)
  show ?case
    by (simp add: NewLoadingCache_inv NewLoadingCache_size_inv NewLoadingCache_exp_inv)
next
  case (reach_wait t c t')
  then show ?case by (auto intro: exp_inv_mono)
next
  case (reach_Set t c now now' k v)
  from reach_Set.IH have inv: "cache_inv c" and sz: "size_inv c" and ex: "exp_inv t c"
    by simp_all
  have "exp_inv now (Set k v now now' c)"
    using inv ex reach_Set.hyps(2) by (rule Set_exp_inv)
  then have "exp_inv now' (Set k v now now' c)"
    using reach_Set.hyps(3) by (rule exp_inv_mono)
  with inv sz show ?case by (simp add: Set_inv Set_size_inv)
next
  case (reach_Get t c now k)
  then show ?case by (auto intro: Get_inv Get_size_inv Get_exp_inv)
next
  case (reach_Invalidate t c k)
  then show ?case by (simp add: Invalidate_inv Invalidate_size_inv Invalidate_exp_inv)
next
  case (reach_InvalidateFn t c fn)
  then show ?case by (simp add: InvalidateFn_inv InvalidateFn_size_inv InvalidateFn_exp_inv)
next
  case (reach_RemoveOldest t c)
  then show ?case by (simp add: RemoveOldest_inv RemoveOldest_size_inv RemoveOldest_exp_inv)
next
  case (reach_DeleteExpired t c now c')
  from reach_DeleteExpired.IH have inv: "cache_inv c" and sz: "size_inv c" and ex: "exp_inv t c"
    by simp_all
  from DeleteExpired_result[OF inv, of now] reach_DeleteExpired.hyps(3)
  have "cache_inv c'" by auto
  moreover have "size_inv c'"
    using inv sz reach_DeleteExpired.hyps(3) by (rule DeleteExpired_size_inv)
  moreover have "exp_inv now c'"
    using DeleteExpired_exp_inv[OF inv ex reach_DeleteExpired.hyps(3)] reach_DeleteExpired.hyps(2)
    by (rule exp_inv_mono)
  ultimately show ?case by simp
next
  case (reach_Purge t c)
  then show ?case by (simp add: Purge_inv Purge_size_inv Purge_exp_inv)
qed

section \<open>Running the model on concrete inputs\<close>

lemmas run_defs = Set_def Get_def Peek_def Keys_def keys_def Len_def Stat_def NewLoadingCache_def
  removeOldestIfExpired_def removeOldest_def removeElement_def Back_def MoveToFront_def
  elemValue_def noEvictionTTL_def Let_def Invalidate_def InvalidateFn_def RemoveOldest_def
  DeleteExpired_def Purge_def

text \<open>
  The example of the repository (\<open>ExampleLoadingCache\<close>): three keys at most, TTL of
  10 ms; \<open>key1\<close> is set and read, read again after it expired, then \<open>key2\<close> is set,
  which trims \<open>key1\<close>. The test expects size 1 and the counters 1, 1, 2, 1.
\<close>

lemma ExampleLoadingCache:
  "Len (Set ''key2'' ''val2'' 11000000 11000000
         (snd (Get ''key1'' 11000000 (snd (Get ''key1'' 0
           (Set ''key1'' ''val1'' 0 0 (NewLoadingCache [MaxKeys 3, TTL 10000000]))))))) = 1 \<and>
   Stat (Set ''key2'' ''val2'' 11000000 11000000
         (snd (Get ''key1'' 11000000 (snd (Get ''key1'' 0
           (Set ''key1'' ''val1'' 0 0 (NewLoadingCache [MaxKeys 3, TTL 10000000])))))))
     = \<lparr>Hits = 1, Misses = 1, Added = 2, Evicted = 1\<rparr>"
  by (simp add: run_defs)

section \<open>Reads\<close>

text \<open>
  C1. For a key that is absent from the index, or whose entry is expired at the moment
  of the call, \<open>Get\<close> returns \<open>(nil, false)\<close> and adds exactly one to \<open>Misses\<close>, and
  \<open>Peek\<close> returns \<open>(nil, false)\<close>. Neither removes anything: \<open>Get\<close> leaves the index
  and the list as they are, so an expired entry stays in the index and \<open>Len\<close> is
  unchanged; \<open>Peek\<close> does not write to the cache at all. This holds in every state,
  reachable or not.
\<close>

theorem Get_miss_keeps_entry:
  "map_of (items c) k = None \<or>
     (\<exists>ent. map_of (items c) k = Some ent \<and> expiresAt (elemValue c ent) < now) \<Longrightarrow>
   fst (Get k now c) = (None, False) \<and>
   Peek k now c = (None, False) \<and>
   Misses (Stat (snd (Get k now c))) = Misses (Stat c) + 1 \<and>
   Hits (Stat (snd (Get k now c))) = Hits (Stat c) \<and>
   items (snd (Get k now c)) = items c \<and>
   evictList (snd (Get k now c)) = evictList c \<and>
   Len (snd (Get k now c)) = Len c"
  by (auto simp: Get_def Peek_def Stat_def Len_def)

theorem Get_miss_keeps_entry_witness:
  "(map_of (items (Set ''key1'' ''val1'' 0 0 (NewLoadingCache [TTL 5]))) ''key1'' = Some 0 \<and>
    expiresAt (elemValue (Set ''key1'' ''val1'' 0 0 (NewLoadingCache [TTL 5])) 0) < 10) \<and>
   fst (Get ''key1'' 10 (Set ''key1'' ''val1'' 0 0 (NewLoadingCache [TTL 5]))) = (None, False) \<and>
   Peek ''key1'' 10 (Set ''key1'' ''val1'' 0 0 (NewLoadingCache [TTL 5])) = (None, False) \<and>
   Misses (Stat (snd (Get ''key1'' 10 (Set ''key1'' ''val1'' 0 0 (NewLoadingCache [TTL 5]))))) = 1 \<and>
   map_of (items (snd (Get ''key1'' 10 (Set ''key1'' ''val1'' 0 0 (NewLoadingCache [TTL 5]))))) ''key1''
     = Some 0 \<and>
   Len (snd (Get ''key1'' 10 (Set ''key1'' ''val1'' 0 0 (NewLoadingCache [TTL 5])))) = 1 \<and>
   map_of (items (Set ''key1'' ''val1'' 0 0 (NewLoadingCache [TTL 5]))) ''key2'' = None \<and>
   fst (Get ''key2'' 1 (Set ''key1'' ''val1'' 0 0 (NewLoadingCache [TTL 5]))) = (None, False) \<and>
   Misses (Stat (snd (Get ''key2'' 1 (Set ''key1'' ''val1'' 0 0 (NewLoadingCache [TTL 5]))))) = 1"
proof -
  let ?c = "Set ''key1'' ''val1'' 0 0 (NewLoadingCache [TTL 5]) :: string loadingCacheImpl"
  have h: "map_of (items ?c) ''key1'' = Some 0 \<and> expiresAt (elemValue ?c 0) < 10"
    by (simp add: run_defs)
  then have "map_of (items ?c) ''key1'' = None \<or>
     (\<exists>ent. map_of (items ?c) ''key1'' = Some ent \<and> expiresAt (elemValue ?c ent) < 10)"
    by blast
  from Get_miss_keeps_entry[OF this] h
  have expired: "fst (Get ''key1'' 10 ?c) = (None, False)" "Peek ''key1'' 10 ?c = (None, False)"
    "Misses (Stat (snd (Get ''key1'' 10 ?c))) = Misses (Stat ?c) + 1"
    "map_of (items (snd (Get ''key1'' 10 ?c))) ''key1'' = Some 0"
    "Len (snd (Get ''key1'' 10 ?c)) = Len ?c"
    by simp_all
  have n: "map_of (items ?c) ''key2'' = None"
    by (simp add: run_defs)
  then have "map_of (items ?c) ''key2'' = None \<or>
     (\<exists>ent. map_of (items ?c) ''key2'' = Some ent \<and> expiresAt (elemValue ?c ent) < 1)"
    by blast
  from Get_miss_keeps_entry[OF this]
  have absent: "fst (Get ''key2'' 1 ?c) = (None, False)"
    "Misses (Stat (snd (Get ''key2'' 1 ?c))) = Misses (Stat ?c) + 1"
    by simp_all
  have "Misses (Stat ?c) = 0" "Len ?c = 1"
    by (simp_all add: run_defs)
  with expired absent h n show ?thesis by simp
qed

lemma removeOldest_fields [simp]:
  "ttl (removeOldest c) = ttl c"
  "isLRU (removeOldest c) = isLRU c"
  "Added (stat (removeOldest c)) = Added (stat c)"
  "elems (removeOldest c) = elems c"
  by (simp_all add: removeOldest_def split: option.splits)

lemma removeOldestIfExpired_more_fields [simp]:
  "Added (stat (removeOldestIfExpired now c)) = Added (stat c)"
  "elems (removeOldestIfExpired now c) = elems c"
  by (simp_all add: removeOldestIfExpired_def split: option.splits)

lemma Set_config [simp]:
  "maxKeys (Set k v now now' c) = maxKeys c"
  "ttl (Set k v now now' c) = ttl c"
  "isLRU (Set k v now now' c) = isLRU c"
  by (simp_all add: Set_def Let_def split: option.splits)

section \<open>The size cap\<close>

text \<open>
  C2. On a cache configured with \<open>MaxKeys > 0\<close>, in every reachable state, \<open>Len\<close> is at
  most \<open>MaxKeys\<close> right after \<open>Set\<close> returns (and \<open>Set\<close> leaves the cap as configured).
\<close>

theorem Set_respects_MaxKeys:
  "reachable t c \<Longrightarrow> 0 < maxKeys c \<Longrightarrow>
   maxKeys (Set k v now now' c) = maxKeys c \<and> Len (Set k v now now' c) \<le> maxKeys c"
proof -
  assume r: "reachable t c" and pos: "0 < maxKeys c"
  from reachable_inv[OF r] have "cache_inv c" "size_inv c" by simp_all
  then have "size_inv (Set k v now now' c)" by (rule Set_size_inv)
  with pos show ?thesis by (simp add: size_inv_def Len_def)
qed

theorem Set_respects_MaxKeys_witness:
  "reachable 1 (Set ''b'' ''B'' 1 1 (Set ''a'' ''A'' 0 0 (NewLoadingCache [MaxKeys 2]))) \<and>
   0 < maxKeys (Set ''b'' ''B'' 1 1 (Set ''a'' ''A'' 0 0 (NewLoadingCache [MaxKeys 2]))) \<and>
   Len (Set ''b'' ''B'' 1 1 (Set ''a'' ''A'' 0 0 (NewLoadingCache [MaxKeys 2]))) = 2 \<and>
   Len (Set ''c'' ''C'' 2 2 (Set ''b'' ''B'' 1 1 (Set ''a'' ''A'' 0 0 (NewLoadingCache [MaxKeys 2]))))
     \<le> maxKeys (Set ''b'' ''B'' 1 1 (Set ''a'' ''A'' 0 0 (NewLoadingCache [MaxKeys 2])))"
proof -
  let ?c = "Set ''b'' ''B'' 1 1 (Set ''a'' ''A'' 0 0 (NewLoadingCache [MaxKeys 2])) :: string loadingCacheImpl"
  have r: "reachable 1 ?c"
    by (rule reach_Set[OF reach_Set[OF reach_New[of 0]]]) simp_all
  have pos: "0 < maxKeys ?c" by (simp add: NewLoadingCache_def)
  have "Len ?c = 2" by (simp add: run_defs)
  with r pos Set_respects_MaxKeys[OF r pos, of "''c''" "''C''" 2 2] show ?thesis by simp
qed

section \<open>The order of the keys\<close>

lemma map_remove1_inj:
  "inj_on f (set xs) \<Longrightarrow> x \<in> set xs \<Longrightarrow> map f (remove1 x xs) = remove1 (f x) (map f xs)"
proof (induction xs)
  case Nil
  then show ?case by simp
next
  case (Cons y ys)
  show ?case
  proof (cases "x = y")
    case True
    then show ?thesis by simp
  next
    case False
    with Cons.prems have "f x \<noteq> f y" "x \<in> set ys" "inj_on f (set ys)"
      by (auto simp: inj_on_def)
    with Cons.IH False show ?thesis by simp
  qed
qed

lemma remove1_rev_distinct: "distinct xs \<Longrightarrow> remove1 x (rev xs) = rev (remove1 x xs)"
  by (simp add: distinct_remove1_removeAll removeAll_filter_not_eq rev_filter)

lemma keys_inj: "cache_inv c \<Longrightarrow> inj_on (\<lambda>ent. key (elemValue c ent)) (set (evictList c))"
  by (rule inj_onI) (metis cache_invD(6) option.inject)

lemma keys_distinct: "cache_inv c \<Longrightarrow> distinct (keys c)"
  by (simp add: keys_def distinct_map keys_inj cache_invD(2))

text \<open>
  C5. A \<open>Get\<close> of a live key \<open>K\<close> succeeds and changes the order of \<open>Keys\<close> as the mode
  says: with LRU, \<open>K\<close> is taken from its place and put last (newest), the other keys
  keeping their order; without LRU, \<open>Keys\<close> is what it was. The keys are distinct, so
  \<open>K\<close> has one place in \<open>Keys\<close>.
\<close>

theorem Get_live_key_order:
  "reachable t c \<Longrightarrow> map_of (items c) K = Some ent \<Longrightarrow>
   \<not> expiresAt (elemValue c ent) < now \<Longrightarrow>
   snd (fst (Get K now c)) \<and> distinct (Keys c) \<and> K \<in> set (Keys c) \<and>
   Keys (snd (Get K now c)) = (if isLRU c then remove1 K (Keys c) @ [K] else Keys c)"
proof -
  assume r: "reachable t c" and look: "map_of (items c) K = Some ent"
    and live: "\<not> expiresAt (elemValue c ent) < now"
  from reachable_inv[OF r] have inv: "cache_inv c" by simp
  note ein = cache_invD(4)[OF inv look] and kk = cache_invD(5)[OF inv look]
    and dist = cache_invD(2)[OF inv]
  let ?f = "\<lambda>e. key (elemValue c e)"
  have ok: "snd (fst (Get K now c))"
    using look live by (simp add: Get_def)
  have kin: "K \<in> set (Keys c)"
    using ein kk by (auto simp: Keys_def keys_def)
  have lru: "Keys (snd (Get K now c)) = remove1 K (Keys c) @ [K]" if "isLRU c"
  proof -
    have "Keys (snd (Get K now c)) = map ?f (rev (ent # remove1 ent (evictList c)))"
      using look live that ein by (simp add: Get_def Keys_def keys_def elemValue_def MoveToFront_def)
    also have "\<dots> = map ?f (remove1 ent (rev (evictList c))) @ [K]"
      using dist kk by (simp add: remove1_rev_distinct)
    also have "map ?f (remove1 ent (rev (evictList c))) = remove1 K (map ?f (rev (evictList c)))"
      using map_remove1_inj[of ?f "rev (evictList c)" ent] keys_inj[OF inv] ein kk by simp
    finally show ?thesis by (simp add: Keys_def keys_def)
  qed
  have lrc: "Keys (snd (Get K now c)) = Keys c" if "\<not> isLRU c"
    using look live that by (simp add: Get_def Keys_def keys_def elemValue_def)
  from ok kin lru lrc keys_distinct[OF inv] show ?thesis by (simp add: Keys_def)
qed

theorem Get_live_key_order_witness:
  "reachable 2 (Set ''c'' ''C'' 2 2 (Set ''b'' ''B'' 1 1 (Set ''a'' ''A'' 0 0 (NewLoadingCache [LRU])))) \<and>
   Keys (Set ''c'' ''C'' 2 2 (Set ''b'' ''B'' 1 1 (Set ''a'' ''A'' 0 0 (NewLoadingCache [LRU]))))
     = [''a'', ''b'', ''c''] \<and>
   Keys (snd (Get ''b'' 3 (Set ''c'' ''C'' 2 2 (Set ''b'' ''B'' 1 1 (Set ''a'' ''A'' 0 0 (NewLoadingCache [LRU]))))))
     = [''a'', ''c'', ''b''] \<and>
   reachable 2 (Set ''c'' ''C'' 2 2 (Set ''b'' ''B'' 1 1 (Set ''a'' ''A'' 0 0 (NewLoadingCache [])))) \<and>
   Keys (snd (Get ''b'' 3 (Set ''c'' ''C'' 2 2 (Set ''b'' ''B'' 1 1 (Set ''a'' ''A'' 0 0 (NewLoadingCache []))))))
     = [''a'', ''b'', ''c'']"
proof -
  let ?u = "Set ''c'' ''C'' 2 2 (Set ''b'' ''B'' 1 1 (Set ''a'' ''A'' 0 0 (NewLoadingCache [LRU]))) :: string loadingCacheImpl"
  let ?c = "Set ''c'' ''C'' 2 2 (Set ''b'' ''B'' 1 1 (Set ''a'' ''A'' 0 0 (NewLoadingCache []))) :: string loadingCacheImpl"
  have ru: "reachable 2 ?u"
    by (rule reach_Set[OF reach_Set[OF reach_Set[OF reach_New[of 0]]]]) simp_all
  have rc: "reachable 2 ?c"
    by (rule reach_Set[OF reach_Set[OF reach_Set[OF reach_New[of 0]]]]) simp_all
  have lu: "map_of (items ?u) ''b'' = Some 1" "\<not> expiresAt (elemValue ?u 1) < 3" "isLRU ?u"
    and ku: "Keys ?u = [''a'', ''b'', ''c'']"
    by (simp_all add: run_defs)
  have lc: "map_of (items ?c) ''b'' = Some 1" "\<not> expiresAt (elemValue ?c 1) < 3" "\<not> isLRU ?c"
    and kc: "Keys ?c = [''a'', ''b'', ''c'']"
    by (simp_all add: run_defs)
  from Get_live_key_order[OF ru lu(1,2)] lu(3) ku
  have "Keys (snd (Get ''b'' 3 ?u)) = [''a'', ''c'', ''b'']" by simp
  moreover from Get_live_key_order[OF rc lc(1,2)] lc(3) kc
  have "Keys (snd (Get ''b'' 3 ?c)) = [''a'', ''b'', ''c'']" by simp
  ultimately show ?thesis using ru rc ku by simp
qed

section \<open>The counters\<close>

lemma Set_Added:
  "Added (stat (Set k v now now' c)) =
     (case map_of (items c) k of Some ent \<Rightarrow> Added (stat c) | None \<Rightarrow> Added (stat c) + 1)"
  by (simp add: Set_def Let_def split: option.splits)

lemma Set_update_Evicted:
  "map_of (items c) k = Some ent \<Longrightarrow> Evicted (stat (Set k v now now' c)) = Evicted (stat c)"
  by (simp add: Set_def)

lemma Invalidate_Added [simp]: "Added (stat (Invalidate k c)) = Added (stat c)"
  by (simp add: Invalidate_def split: option.splits)

lemma InvalidateFn_Added [simp]: "Added (stat (InvalidateFn fn c)) = Added (stat c)"
proof -
  have "Added (stat (InvalidateFn_range fn al c)) = Added (stat c)" for al
    by (induction fn al c rule: InvalidateFn_range.induct) simp_all
  then show ?thesis by (simp add: InvalidateFn_def)
qed

lemma cache_inv_Evicted:
  "cache_inv c \<Longrightarrow> Evicted (stat c) = Added (stat c) - int (length (evictList c))"
  using cache_invD(9)[of c] by simp

text \<open>
  C6. In every state reached from a new cache, \<open>Added - Evicted = Len\<close>. In
  particular: a \<open>Set\<close> of a key that is present changes neither counter; a \<open>Set\<close> of a
  fresh key adds one to \<open>Added\<close> and one to \<open>Evicted\<close> for each entry its trim and its
  size eviction remove; \<open>Invalidate\<close>, \<open>InvalidateFn\<close>, \<open>RemoveOldest\<close> and
  \<open>DeleteExpired\<close> add one to \<open>Evicted\<close> for each entry they remove; \<open>Purge\<close> adds one
  for each entry present when it is called, and leaves the cache empty.
\<close>

theorem counters_account_for_size:
  "reachable t c \<Longrightarrow>
   Added (Stat c) - Evicted (Stat c) = Len c \<and>
   (case map_of (items c) k of
      Some ent \<Rightarrow> Added (Stat (Set k v now now' c)) = Added (Stat c) \<and>
                  Evicted (Stat (Set k v now now' c)) = Evicted (Stat c)
    | None \<Rightarrow> Added (Stat (Set k v now now' c)) = Added (Stat c) + 1 \<and>
              Evicted (Stat (Set k v now now' c)) = Evicted (Stat c) + (Len c + 1 - Len (Set k v now now' c))) \<and>
   Evicted (Stat (Invalidate k c)) = Evicted (Stat c) + (Len c - Len (Invalidate k c)) \<and>
   Evicted (Stat (InvalidateFn fn c)) = Evicted (Stat c) + (Len c - Len (InvalidateFn fn c)) \<and>
   Evicted (Stat (RemoveOldest c)) = Evicted (Stat c) + (Len c - Len (RemoveOldest c)) \<and>
   (\<exists>c'. DeleteExpired now c = Some c' \<and>
         Evicted (Stat c') = Evicted (Stat c) + (Len c - Len c')) \<and>
   Evicted (Stat (Purge c)) = Evicted (Stat c) + Len c \<and> Len (Purge c) = 0"
proof -
  assume r: "reachable t c"
  from reachable_inv[OF r] have inv: "cache_inv c" by simp
  note E = cache_inv_Evicted
  have eq: "Added (Stat c) - Evicted (Stat c) = Len c"
    using cache_invD(9)[OF inv] by (simp add: Stat_def Len_def)
  have set: "case map_of (items c) k of
      Some ent \<Rightarrow> Added (Stat (Set k v now now' c)) = Added (Stat c) \<and>
                  Evicted (Stat (Set k v now now' c)) = Evicted (Stat c)
    | None \<Rightarrow> Added (Stat (Set k v now now' c)) = Added (Stat c) + 1 \<and>
              Evicted (Stat (Set k v now now' c)) = Evicted (Stat c) + (Len c + 1 - Len (Set k v now now' c))"
    using E[OF Set_inv[OF inv, of k v now now']] E[OF inv]
    by (simp add: Stat_def Len_def Set_Added Set_update_Evicted split: option.splits)
  have inval: "Evicted (Stat (Invalidate k c)) = Evicted (Stat c) + (Len c - Len (Invalidate k c))"
    using E[OF Invalidate_inv[OF inv, of k]] E[OF inv] by (simp add: Stat_def Len_def)
  have invalfn: "Evicted (Stat (InvalidateFn fn c)) = Evicted (Stat c) + (Len c - Len (InvalidateFn fn c))"
    using E[OF InvalidateFn_inv[OF inv, of fn]] E[OF inv] by (simp add: Stat_def Len_def)
  have oldest: "Evicted (Stat (RemoveOldest c)) = Evicted (Stat c) + (Len c - Len (RemoveOldest c))"
    using E[OF RemoveOldest_inv[OF inv]] E[OF inv] by (simp add: Stat_def Len_def RemoveOldest_def)
  have del: "\<exists>c'. DeleteExpired now c = Some c' \<and>
         Evicted (Stat c') = Evicted (Stat c) + (Len c - Len c')"
  proof -
    from DeleteExpired_result[OF inv, of now] obtain c' where
      run: "DeleteExpired now c = Some c'" and inv': "cache_inv c'"
      and added: "Added (stat c') = Added (stat c)"
      by blast
    from E[OF inv'] E[OF inv] added
    have "Evicted (Stat c') = Evicted (Stat c) + (Len c - Len c')"
      by (simp add: Stat_def Len_def)
    with run show ?thesis by blast
  qed
  have purge: "Evicted (Stat (Purge c)) = Evicted (Stat c) + Len c" "Len (Purge c) = 0"
    using cache_invD(3)[OF inv] by (simp_all add: Stat_def Len_def Purge_Evicted)
  from eq set inval invalfn oldest del purge show ?thesis by blast
qed

theorem counters_account_for_size_witness:
  "reachable 20 (Set ''c'' ''C'' 20 20 (Set ''b'' ''B'' 1 1 (Set ''a'' ''A'' 0 0 (NewLoadingCache [TTL 5])))) \<and>
   Stat (Set ''c'' ''C'' 20 20 (Set ''b'' ''B'' 1 1 (Set ''a'' ''A'' 0 0 (NewLoadingCache [TTL 5]))))
     = \<lparr>Hits = 0, Misses = 0, Added = 3, Evicted = 1\<rparr> \<and>
   Len (Set ''c'' ''C'' 20 20 (Set ''b'' ''B'' 1 1 (Set ''a'' ''A'' 0 0 (NewLoadingCache [TTL 5])))) = 2 \<and>
   Added (Stat (Set ''c'' ''C'' 20 20 (Set ''b'' ''B'' 1 1 (Set ''a'' ''A'' 0 0 (NewLoadingCache [TTL 5]))))) -
   Evicted (Stat (Set ''c'' ''C'' 20 20 (Set ''b'' ''B'' 1 1 (Set ''a'' ''A'' 0 0 (NewLoadingCache [TTL 5])))))
     = Len (Set ''c'' ''C'' 20 20 (Set ''b'' ''B'' 1 1 (Set ''a'' ''A'' 0 0 (NewLoadingCache [TTL 5])))) \<and>
   Evicted (Stat (Purge (Set ''c'' ''C'' 20 20 (Set ''b'' ''B'' 1 1 (Set ''a'' ''A'' 0 0 (NewLoadingCache [TTL 5])))))) = 3"
proof -
  let ?c = "Set ''c'' ''C'' 20 20 (Set ''b'' ''B'' 1 1 (Set ''a'' ''A'' 0 0 (NewLoadingCache [TTL 5]))) :: string loadingCacheImpl"
  have r: "reachable 20 ?c"
    by (rule reach_Set[OF reach_Set[OF reach_Set[OF reach_New[of 0]]]]) simp_all
  have st: "Stat ?c = \<lparr>Hits = 0, Misses = 0, Added = 3, Evicted = 1\<rparr>" and len: "Len ?c = 2"
    by (simp_all add: run_defs)
  from counters_account_for_size[OF r, of "''c''" "''C''" 20 20 "\<lambda>_. False"]
  have "Added (Stat ?c) - Evicted (Stat ?c) = Len ?c"
    and "Evicted (Stat (Purge ?c)) = Evicted (Stat ?c) + Len ?c"
    by blast+
  with r st len show ?thesis by simp
qed

section \<open>What a write keeps\<close>









section \<open>Removing the expired entries\<close>

lemma dropWhile_sorted_filter:
  "sorted_wrt (\<lambda>a b. f a \<le> f b) xs \<Longrightarrow>
   dropWhile (\<lambda>e. f e < (n::int)) xs = filter (\<lambda>e. \<not> f e < n) xs"
proof (induction xs)
  case Nil
  show ?case by simp
next
  case (Cons x xs)
  show ?case
  proof (cases "f x < n")
    case True
    with Cons show ?thesis by simp
  next
    case False
    with Cons.prems have "\<forall>e\<in>set xs. \<not> f e < n" by auto
    then have "filter (\<lambda>e. \<not> f e < n) xs = xs" by simp
    with False show ?thesis by simp
  qed
qed

text \<open>
  In a state with the invariants, \<open>DeleteExpired\<close> returns, and what it leaves is the
  list without its expired elements. Without LRU this is the list without the run of
  expired elements at its back: the walk stops at the first element that is not expired.
\<close>

lemma DeleteExpired_filter:
  assumes inv: "cache_inv c" and ex: "exp_inv t c"
  shows "\<exists>c'. DeleteExpired now c = Some c' \<and> cache_inv c' \<and> elems c' = elems c \<and>
           evictList c' = filter (\<lambda>e. \<not> expiresAt (elemValue c e) < now) (evictList c) \<and>
           (\<not> isLRU c \<longrightarrow>
              evictList c' = rev (dropWhile (\<lambda>e. expiresAt (elemValue c e) < now) (rev (evictList c))))"
proof -
  let ?E = "\<lambda>e. expiresAt (elemValue c e) < now"
  from DeleteExpired_result[OF inv, of now] obtain c' where
    run: "DeleteExpired now c = Some c'" and inv': "cache_inv c'" and el: "elems c' = elems c"
    and l: "evictList c' =
             (if isLRU c then filter (\<lambda>e. \<not> ?E e) (evictList c)
              else rev (dropWhile ?E (rev (evictList c))))"
    by blast
  have "rev (dropWhile ?E (rev (evictList c))) = filter (\<lambda>e. \<not> ?E e) (evictList c)"
    if lrc: "\<not> isLRU c"
  proof -
    from ex lrc have "sorted_wrt (\<lambda>a b. expiresAt (elemValue c b) \<le> expiresAt (elemValue c a)) (evictList c)"
      by (simp add: exp_inv_def)
    then have "sorted_wrt (\<lambda>a b. expiresAt (elemValue c a) \<le> expiresAt (elemValue c b)) (rev (evictList c))"
      by (simp add: sorted_wrt_rev)
    then have "dropWhile ?E (rev (evictList c)) = filter (\<lambda>e. \<not> ?E e) (rev (evictList c))"
      by (rule dropWhile_sorted_filter)
    then show ?thesis by (simp add: rev_filter)
  qed
  with run inv' el l show ?thesis by auto
qed

text \<open>
  C3. In every reachable state \<open>DeleteExpired\<close> returns, and no entry whose expiry is
  strictly before the instant of the call remains, in the list or in the index: the
  list it leaves is the list without its expired elements. Without LRU the walk from
  the back stops at the first element that is not expired, which removes the same
  elements because the list is ordered by expiry; with LRU the whole list is walked.
\<close>

theorem DeleteExpired_removes_expired:
  "reachable t c \<Longrightarrow>
   (\<exists>c'. DeleteExpired now c = Some c' \<and>
      evictList c' = filter (\<lambda>ent. \<not> expiresAt (elemValue c ent) < now) (evictList c) \<and>
      (\<not> isLRU c \<longrightarrow>
         evictList c' = rev (dropWhile (\<lambda>ent. expiresAt (elemValue c ent) < now) (rev (evictList c)))) \<and>
      (\<forall>ent\<in>set (evictList c'). \<not> expiresAt (elemValue c' ent) < now) \<and>
      (\<forall>k ent. map_of (items c') k = Some ent \<longrightarrow> \<not> expiresAt (elemValue c' ent) < now))"
proof -
  assume r: "reachable t c"
  from reachable_inv[OF r] have inv: "cache_inv c" and ex: "exp_inv t c" by simp_all
  from DeleteExpired_filter[OF inv ex, of now] obtain c' where
    run: "DeleteExpired now c = Some c'" and inv': "cache_inv c'" and el: "elems c' = elems c"
    and l: "evictList c' = filter (\<lambda>e. \<not> expiresAt (elemValue c e) < now) (evictList c)"
    and l2: "\<not> isLRU c \<longrightarrow>
              evictList c' = rev (dropWhile (\<lambda>e. expiresAt (elemValue c e) < now) (rev (evictList c)))"
    by blast
  have ev: "elemValue c' = elemValue c"
    by (rule ext) (simp add: elemValue_def el)
  have list: "\<forall>ent\<in>set (evictList c'). \<not> expiresAt (elemValue c' ent) < now"
    by (simp add: l ev)
  have "\<not> expiresAt (elemValue c' ent) < now" if "map_of (items c') k = Some ent" for k ent
    using cache_invD(4)[OF inv' that] list by blast
  with run l l2 list show ?thesis by blast
qed

theorem DeleteExpired_removes_expired_witness:
  "reachable 4 (snd (Get ''a'' 4 (Set ''b'' ''B'' 3 3 (Set ''a'' ''A'' 0 0 (NewLoadingCache [TTL 5, LRU]))))) \<and>
   Keys (snd (Get ''a'' 4 (Set ''b'' ''B'' 3 3 (Set ''a'' ''A'' 0 0 (NewLoadingCache [TTL 5, LRU])))))
     = [''b'', ''a''] \<and>
   map_option evictList
     (DeleteExpired 6 (snd (Get ''a'' 4 (Set ''b'' ''B'' 3 3 (Set ''a'' ''A'' 0 0 (NewLoadingCache [TTL 5, LRU]))))))
     = Some [1] \<and>
   map_option Keys
     (DeleteExpired 6 (snd (Get ''a'' 4 (Set ''b'' ''B'' 3 3 (Set ''a'' ''A'' 0 0 (NewLoadingCache [TTL 5, LRU]))))))
     = Some [''b''] \<and>
   reachable 3 (Set ''b'' ''B'' 3 3 (Set ''a'' ''A'' 0 0 (NewLoadingCache [TTL 5]))) \<and>
   Keys (Set ''b'' ''B'' 3 3 (Set ''a'' ''A'' 0 0 (NewLoadingCache [TTL 5]))) = [''a'', ''b''] \<and>
   map_option evictList (DeleteExpired 6 (Set ''b'' ''B'' 3 3 (Set ''a'' ''A'' 0 0 (NewLoadingCache [TTL 5]))))
     = Some [1]"
proof -
  let ?c = "snd (Get ''a'' 4 (Set ''b'' ''B'' 3 3 (Set ''a'' ''A'' 0 0 (NewLoadingCache [TTL 5, LRU])))) :: string loadingCacheImpl"
  let ?d = "Set ''b'' ''B'' 3 3 (Set ''a'' ''A'' 0 0 (NewLoadingCache [TTL 5])) :: string loadingCacheImpl"
  have r: "reachable 4 ?c"
    by (rule reach_Get[OF reach_Set[OF reach_Set[OF reach_New[of 0]]]]) simp_all
  have k: "Keys ?c = [''b'', ''a'']"
    and l: "evictList ?c = [0, 1]"
    and f: "filter (\<lambda>ent. \<not> expiresAt (elemValue ?c ent) < 6) [0, 1] = [1]"
    and k': "map_option Keys (DeleteExpired 6 ?c) = Some [''b'']"
    by (simp_all add: run_defs)
  from DeleteExpired_removes_expired[OF r, of 6] obtain c' where
    run: "DeleteExpired 6 ?c = Some c'"
    and l': "evictList c' = filter (\<lambda>ent. \<not> expiresAt (elemValue ?c ent) < 6) (evictList ?c)"
    by blast
  from l' have "evictList c' = [1]"
    unfolding l f .
  with run have lru: "map_option evictList (DeleteExpired 6 ?c) = Some [1]" by simp
  have rd: "reachable 3 ?d"
    by (rule reach_Set[OF reach_Set[OF reach_New[of 0]]]) simp_all
  have kd: "Keys ?d = [''a'', ''b'']"
    and ld: "evictList ?d = [1, 0]"
    and fd: "rev (dropWhile (\<lambda>ent. expiresAt (elemValue ?d ent) < 6) (rev [1, 0])) = [1]"
    and md: "\<not> isLRU ?d"
    by (simp_all add: run_defs)
  from DeleteExpired_removes_expired[OF rd, of 6] md obtain d' where
    rund: "DeleteExpired 6 ?d = Some d'"
    and ld': "evictList d' = rev (dropWhile (\<lambda>ent. expiresAt (elemValue ?d ent) < 6) (rev (evictList ?d)))"
    by blast
  from ld' have "evictList d' = [1]"
    unfolding ld fd .
  with rund have lrc: "map_option evictList (DeleteExpired 6 ?d) = Some [1]" by simp
  from r k k' lru rd kd lrc show ?thesis by simp
qed

section \<open>Strict expiry\<close>

text \<open>
  C7. Expiry is strict. For a key in the index of a reachable state, with expiry
  \<open>expires_at\<close>: \<open>Get\<close> and \<open>Peek\<close> at instant \<open>now\<close> return the stored value with
  \<open>true\<close> exactly when \<open>now \<le> expires_at\<close>, and \<open>(nil, false)\<close> otherwise;
  \<open>DeleteExpired\<close> keeps the entry in the index exactly then, and so does the trim of
  \<open>Set\<close> when the entry is at the back. At \<open>now = expires_at\<close> the entry is still
  returned as present, with its value, and is not removed.
\<close>

theorem expiry_is_strict:
  "reachable t c \<Longrightarrow> map_of (items c) k = Some ent \<Longrightarrow>
   fst (Get k now c) =
     (if now \<le> expiresAt (elemValue c ent) then (Some (val (elemValue c ent)), True)
      else (None, False)) \<and>
   Peek k now c =
     (if now \<le> expiresAt (elemValue c ent) then (Some (val (elemValue c ent)), True)
      else (None, False)) \<and>
   (snd (fst (Get k now c)) \<longleftrightarrow> now \<le> expiresAt (elemValue c ent)) \<and>
   (snd (Peek k now c) \<longleftrightarrow> now \<le> expiresAt (elemValue c ent)) \<and>
   map_of (items (snd (Get k now c))) k = Some ent \<and>
   (\<exists>c'. DeleteExpired now c = Some c' \<and>
         map_of (items c') k = (if now \<le> expiresAt (elemValue c ent) then Some ent else None)) \<and>
   (Back (evictList c) = Some ent \<longrightarrow>
      map_of (items (removeOldestIfExpired now c)) k =
        (if now \<le> expiresAt (elemValue c ent) then Some ent else None))"
proof -
  assume r: "reachable t c" and look: "map_of (items c) k = Some ent"
  from reachable_inv[OF r] have inv: "cache_inv c" and ex: "exp_inv t c" by simp_all
  note ein = cache_invD(4)[OF inv look] and kk = cache_invD(5)[OF inv look]
  have getv: "fst (Get k now c) =
     (if now \<le> expiresAt (elemValue c ent) then (Some (val (elemValue c ent)), True)
      else (None, False))"
    using look by (auto simp: Get_def)
  have peekv: "Peek k now c =
     (if now \<le> expiresAt (elemValue c ent) then (Some (val (elemValue c ent)), True)
      else (None, False))"
    using look by (auto simp: Peek_def)
  have get: "snd (fst (Get k now c)) \<longleftrightarrow> now \<le> expiresAt (elemValue c ent)"
    by (simp add: getv)
  have peek: "snd (Peek k now c) \<longleftrightarrow> now \<le> expiresAt (elemValue c ent)"
    by (simp add: peekv)
  have kept: "map_of (items (snd (Get k now c))) k = Some ent"
    using look by (simp add: Get_def)
  have del: "\<exists>c'. DeleteExpired now c = Some c' \<and>
         map_of (items c') k = (if now \<le> expiresAt (elemValue c ent) then Some ent else None)"
  proof -
    from DeleteExpired_filter[OF inv ex, of now] obtain c' where
      run: "DeleteExpired now c = Some c'" and inv': "cache_inv c'" and el: "elems c' = elems c"
      and l: "evictList c' = filter (\<lambda>e. \<not> expiresAt (elemValue c e) < now) (evictList c)"
      by blast
    have ev: "elemValue c' = elemValue c"
      by (rule ext) (simp add: elemValue_def el)
    have "map_of (items c') k = (if now \<le> expiresAt (elemValue c ent) then Some ent else None)"
    proof (cases "now \<le> expiresAt (elemValue c ent)")
      case True
      with ein have "ent \<in> set (evictList c')" by (simp add: l)
      from cache_invD(6)[OF inv' this] True kk show ?thesis by (simp add: ev)
    next
      case False
      have "map_of (items c') k = None"
      proof (rule ccontr)
        assume "map_of (items c') k \<noteq> None"
        then obtain e' where look': "map_of (items c') k = Some e'" by blast
        from cache_invD(4)[OF inv' look'] have in': "e' \<in> set (evictList c)"
          and live: "\<not> expiresAt (elemValue c e') < now"
          by (simp_all add: l)
        from cache_invD(5)[OF inv' look'] have "key (elemValue c e') = k" by (simp add: ev)
        with cache_invD(6)[OF inv in'] look have "e' = ent" by simp
        with live False show False by simp
      qed
      with False show ?thesis by simp
    qed
    with run show ?thesis by blast
  qed
  have trim: "map_of (items (removeOldestIfExpired now c)) k =
        (if now \<le> expiresAt (elemValue c ent) then Some ent else None)"
    if "Back (evictList c) = Some ent"
    using that look kk by (simp add: removeOldestIfExpired_def delete_conv)
  from getv peekv get peek kept del trim show ?thesis by blast
qed

theorem expiry_is_strict_witness:
  "reachable 0 (Set ''key1'' ''val1'' 0 0 (NewLoadingCache [TTL 5])) \<and>
   map_of (items (Set ''key1'' ''val1'' 0 0 (NewLoadingCache [TTL 5]))) ''key1'' = Some 0 \<and>
   expiresAt (elemValue (Set ''key1'' ''val1'' 0 0 (NewLoadingCache [TTL 5])) 0) = 5 \<and>
   Back (evictList (Set ''key1'' ''val1'' 0 0 (NewLoadingCache [TTL 5]))) = Some 0 \<and>
   fst (Get ''key1'' 5 (Set ''key1'' ''val1'' 0 0 (NewLoadingCache [TTL 5]))) = (Some ''val1'', True) \<and>
   Peek ''key1'' 5 (Set ''key1'' ''val1'' 0 0 (NewLoadingCache [TTL 5])) = (Some ''val1'', True) \<and>
   snd (fst (Get ''key1'' 5 (Set ''key1'' ''val1'' 0 0 (NewLoadingCache [TTL 5])))) \<and>
   snd (Peek ''key1'' 5 (Set ''key1'' ''val1'' 0 0 (NewLoadingCache [TTL 5]))) \<and>
   fst (Get ''key1'' 6 (Set ''key1'' ''val1'' 0 0 (NewLoadingCache [TTL 5]))) = (None, False) \<and>
   Peek ''key1'' 6 (Set ''key1'' ''val1'' 0 0 (NewLoadingCache [TTL 5])) = (None, False) \<and>
   (\<exists>c'. DeleteExpired 5 (Set ''key1'' ''val1'' 0 0 (NewLoadingCache [TTL 5])) = Some c' \<and>
         map_of (items c') ''key1'' = Some 0) \<and>
   map_of (items (removeOldestIfExpired 5 (Set ''key1'' ''val1'' 0 0 (NewLoadingCache [TTL 5])))) ''key1''
     = Some 0 \<and>
   \<not> snd (fst (Get ''key1'' 6 (Set ''key1'' ''val1'' 0 0 (NewLoadingCache [TTL 5])))) \<and>
   (\<exists>c'. DeleteExpired 6 (Set ''key1'' ''val1'' 0 0 (NewLoadingCache [TTL 5])) = Some c' \<and>
         map_of (items c') ''key1'' = None)"
proof -
  let ?c = "Set ''key1'' ''val1'' 0 0 (NewLoadingCache [TTL 5]) :: string loadingCacheImpl"
  have r: "reachable 0 ?c"
    by (rule reach_Set[OF reach_New[of 0]]) simp_all
  have look: "map_of (items ?c) ''key1'' = Some 0"
    and exp: "expiresAt (elemValue ?c 0) = 5"
    and oldest: "Back (evictList ?c) = Some 0"
    and stored: "val (elemValue ?c 0) = ''val1''"
    by (simp_all add: run_defs)
  from expiry_is_strict[OF r look, of 5] expiry_is_strict[OF r look, of 6] r look exp oldest stored
  show ?thesis by simp
qed

section \<open>The trim on a write to a present key\<close>

text \<open>
  C4. A \<open>Set\<close> of a key that is present does not run the trim: the code returns from
  that branch before it, although the package documentation reads "On every Set()
  call, cache deletes single oldest entry in cache in case it's expired". Here the TTL
  is 5 (not the no-eviction TTL), the back node \<open>a\<close> expires at 5, and a \<open>Set\<close> of the
  present key \<open>b\<close> at instant 20 leaves \<open>a\<close> in the cache and \<open>Evicted\<close> at 0, while a
  \<open>Set\<close> of the fresh key \<open>c\<close> at the same instant removes \<open>a\<close>.
\<close>

theorem Set_present_key_skips_trim:
  "ttl (Set ''b'' ''B'' 1 1 (Set ''a'' ''A'' 0 0 (NewLoadingCache [TTL 5]))) \<noteq> noEvictionTTL \<and>
   Back (evictList (Set ''b'' ''B'' 1 1 (Set ''a'' ''A'' 0 0 (NewLoadingCache [TTL 5])))) = Some 0 \<and>
   elemValue (Set ''b'' ''B'' 1 1 (Set ''a'' ''A'' 0 0 (NewLoadingCache [TTL 5]))) 0
     = \<lparr>expiresAt = 5, key = ''a'', val = ''A''\<rparr> \<and>
   Keys (Set ''b'' ''B2'' 20 20 (Set ''b'' ''B'' 1 1 (Set ''a'' ''A'' 0 0 (NewLoadingCache [TTL 5]))))
     = [''a'', ''b''] \<and>
   Evicted (Stat (Set ''b'' ''B2'' 20 20 (Set ''b'' ''B'' 1 1 (Set ''a'' ''A'' 0 0 (NewLoadingCache [TTL 5]))))) = 0 \<and>
   Keys (Set ''c'' ''C'' 20 20 (Set ''b'' ''B'' 1 1 (Set ''a'' ''A'' 0 0 (NewLoadingCache [TTL 5]))))
     = [''b'', ''c''] \<and>
   Evicted (Stat (Set ''c'' ''C'' 20 20 (Set ''b'' ''B'' 1 1 (Set ''a'' ''A'' 0 0 (NewLoadingCache [TTL 5]))))) = 1"
  by (simp add: run_defs)

section \<open>The legacy adapter masks the value of an absent key\<close>

text \<open>
  C8. Whatever the newer core does: when its \<open>Get\<close> (or \<open>Peek\<close>) reports \<open>present =
  false\<close>, the adapter returns the zero value with \<open>false\<close>, also when the core hands
  out a stored value with the \<open>false\<close>, as it does for an expired key; when the core
  reports \<open>present = true\<close>, the adapter returns the core's value and flag unchanged.
  The core's state after the call is passed on in both cases.
\<close>

theorem cacheImpl_masks_absent:
  "(\<not> snd (fst (coreGet k s)) \<longrightarrow>
      cacheImpl_Get coreGet zero k s = ((zero, False), snd (coreGet k s))) \<and>
   (snd (fst (coreGet k s)) \<longrightarrow> cacheImpl_Get coreGet zero k s = coreGet k s) \<and>
   (\<not> snd (fst (corePeek k s)) \<longrightarrow>
      cacheImpl_Peek corePeek zero k s = ((zero, False), snd (corePeek k s))) \<and>
   (snd (fst (corePeek k s)) \<longrightarrow> cacheImpl_Peek corePeek zero k s = corePeek k s)"
  by (auto simp: cacheImpl_Get_def cacheImpl_Peek_def split: prod.splits)

theorem cacheImpl_masks_absent_witness:
  "cacheImpl_Get (\<lambda>k s. ((''val1'', k \<noteq> ''key1''), Suc s)) '''' ''key1'' (0::nat)
     = (('''', False), 1) \<and>
   cacheImpl_Get (\<lambda>k s. ((''val1'', k \<noteq> ''key1''), Suc s)) '''' ''key2'' (0::nat)
     = ((''val1'', True), 1) \<and>
   cacheImpl_Peek (\<lambda>k s. ((''val1'', k \<noteq> ''key1''), s)) '''' ''key1'' (0::nat)
     = (('''', False), 0) \<and>
   cacheImpl_Peek (\<lambda>k s. ((''val1'', k \<noteq> ''key1''), s)) '''' ''key2'' (0::nat)
     = ((''val1'', True), 0)"
  using cacheImpl_masks_absent[of "\<lambda>k s. ((''val1'', k \<noteq> ''key1''), Suc s)" "''key1''" "0::nat"
          "''''" "\<lambda>k s. ((''val1'', k \<noteq> ''key1''), s)"]
        cacheImpl_masks_absent[of "\<lambda>k s. ((''val1'', k \<noteq> ''key1''), Suc s)" "''key2''" "0::nat"
          "''''" "\<lambda>k s. ((''val1'', k \<noteq> ''key1''), s)"]
  by simp

end
